theory Spec2Isabelle
  imports Complex_Main "HOL-Library.Word" "HOL-Library.Multiset"
begin

unbundle bit_operations_syntax

section \<open>Machine types and the path record of \<^verbatim>\<open>src/mapper.cpp\<close>\<close>

text \<open>
  The C++ integer types are words of their width.  Single-precision floats are
  idealised as \<^typ>\<open>real\<close>: the properties below use only the order of
  probabilities and never a rounding behaviour.  Members lose their trailing
  underscore (\<^verbatim>\<open>length_\<close> is \<open>path_length\<close>, \<^verbatim>\<open>start_\<close> is \<open>range_start\<close>).
\<close>

type_synonym u8 = "8 word"
type_synonym u16 = "16 word"
type_synonym u32 = "32 word"
type_synonym u64 = "64 word"

text \<open>
  \<^verbatim>\<open>enum EventType\<close>: the constructor's loop over \<^verbatim>\<open>t < NUM_TYPES\<close> and
  \<^verbatim>\<open>make_source\<close> (index \<^verbatim>\<open>MATCH\<close> set to 1, indices from 1 on cleared) fix
  \<^verbatim>\<open>MATCH = 0\<close>; \<^verbatim>\<open>STAY\<close> is the other operational type.
\<close>

datatype EventType = MATCH | STAY

fun type_index :: "EventType \<Rightarrow> nat" where
  "type_index MATCH = 0"
| "type_index STAY = 1"

definition NUM_TYPES :: nat where
  "NUM_TYPES = 2"

text \<open>
  Modelled from the spec: class \<^verbatim>\<open>Range\<close> is declared outside the shown sources.
  A closed interval over the suffix array with 64-bit bounds (\<^verbatim>\<open>update_seeds\<close>
  walks it with a \<^verbatim>\<open>u64\<close>); valid iff \<open>start \<le> end\<close>; length
  \<open>end - start + 1\<close>; ordered lexicographically by (start, end).
\<close>

record Range =
  range_start :: u64
  range_end :: u64

definition range_is_valid :: "Range \<Rightarrow> bool" where
  "range_is_valid r = (range_start r \<le> range_end r)"

definition range_length :: "Range \<Rightarrow> u64" where
  "range_length r = range_end r - range_start r + 1"

definition range_less :: "Range \<Rightarrow> Range \<Rightarrow> bool" where
  "range_less q1 q2 =
     (range_start q1 < range_start q2 \<or>
      (range_start q1 = range_start q2 \<and> range_end q1 < range_end q2))"

definition range_eq :: "Range \<Rightarrow> Range \<Rightarrow> bool" where
  "range_eq q1 q2 = (range_start q1 = range_start q2 \<and> range_end q1 = range_end q2)"

text \<open>
  The options the mapper reads.  Their C++ types are declared outside the shown
  sources; they are kept as the numbers they denote.
\<close>

record UncalledOpts =
  seed_len :: nat
  max_paths :: nat
  max_consec_stay :: nat
  max_stay_frac :: real
  min_seed_prob :: real
  max_rep_copy :: nat
  min_rep_len :: nat
  max_events_proc :: nat
  max_chunks_proc :: nat
  kmer_fmranges :: "u16 \<Rightarrow> Range"
  get_prob_thresh :: "u64 \<Rightarrow> real"
  get_source_prob :: real

text \<open>
  The static members of \<^verbatim>\<open>PathBuffer\<close> and the compile-time constant
  \<^verbatim>\<open>TYPE_BITS\<close> (declared in the header, so a parameter here).
\<close>

record statics =
  TYPE_BITS :: nat
  MAX_PATH_LEN :: u8
  TYPE_MASK :: u8
  TYPE_ADDS :: "u32 list"

text \<open>
  The part of \<^verbatim>\<open>Mapper::Mapper\<close> that sets the statics.  \<^verbatim>\<open>t\<close> is a
  \<^verbatim>\<open>u64\<close>, shifted and then stored in a \<^verbatim>\<open>u32\<close>.  C++ leaves the shift
  undefined for \<^verbatim>\<open>MAX_PATH_LEN < 2\<close>; the natural-number subtraction here
  stops at 0.
\<close>

definition init_statics :: "nat \<Rightarrow> UncalledOpts \<Rightarrow> statics" where
  "init_statics tb ap =
     (let m = (of_nat (seed_len ap) :: u8) in
      \<lparr> TYPE_BITS = tb,
        MAX_PATH_LEN = m,
        TYPE_MASK = of_nat (2 ^ tb - 1),
        TYPE_ADDS = map (\<lambda>t. ucast (push_bit ((unat m - 2) * tb) (of_nat t :: u64)))
                      [0 ..< NUM_TYPES] \<rparr>)"

record PathBuffer =
  path_length :: u8
  consec_stays :: u8
  event_types :: u32
  seed_prob :: real
  fm_range :: Range
  kmer :: u16
  sa_checked :: bool
  path_type_counts :: "u8 list"
  prob_sums :: "real list"

text \<open>
  Every operation of \<^verbatim>\<open>PathBuffer\<close> writes into an existing slot of a beam
  array: \<open>this\<close> is the slot before the call, the result the slot after it.
\<close>

definition make_source :: "PathBuffer \<Rightarrow> Range \<Rightarrow> u16 \<Rightarrow> real \<Rightarrow> PathBuffer" where
  "make_source this rng km prob =
     this\<lparr> path_length := 1,
           consec_stays := 0,
           event_types := 0,
           seed_prob := prob,
           fm_range := rng,
           kmer := km,
           sa_checked := False,
           path_type_counts :=
             (path_type_counts this)[type_index MATCH := 1, 1 := 0],
           prob_sums := (prob_sums this)[0 := 0, 1 := prob] \<rparr>"

definition type_head :: "statics \<Rightarrow> PathBuffer \<Rightarrow> u8" where
  "type_head st this =
     ucast (drop_bit (TYPE_BITS st * (unat (MAX_PATH_LEN st) - 2)) (event_types this)
            AND ucast (TYPE_MASK st))"

definition type_tail :: "statics \<Rightarrow> PathBuffer \<Rightarrow> u8" where
  "type_tail st this = ucast (event_types this AND ucast (TYPE_MASK st))"

text \<open>
  \<^verbatim>\<open>memcpy(dst, src, n * sizeof(float))\<close> on the first \<open>n\<close> entries.
\<close>

definition memcpy_list :: "'a list \<Rightarrow> 'a list \<Rightarrow> nat \<Rightarrow> 'a list" where
  "memcpy_list dst src n = take n src @ drop n dst"

definition make_child ::
  "statics \<Rightarrow> PathBuffer \<Rightarrow> PathBuffer \<Rightarrow> Range \<Rightarrow> u16 \<Rightarrow> real \<Rightarrow> EventType \<Rightarrow> PathBuffer" where
  "make_child st this p rng km prob type =
     (let len = path_length p + (if path_length p \<le> MAX_PATH_LEN st then 1 else 0);
          is_stay = (if type = STAY then 1 else 0 :: u8);
          ets = (TYPE_ADDS st ! type_index type) OR drop_bit (TYPE_BITS st) (event_types p);
          stays = (consec_stays p + is_stay) * is_stay;
          counts = memcpy_list (path_type_counts this) (path_type_counts p) NUM_TYPES;
          counts = counts[type_index type := counts ! type_index type + 1];
          m = unat (MAX_PATH_LEN st)
      in if len > MAX_PATH_LEN st then
           (let psums = memcpy_list (prob_sums this) (drop 1 (prob_sums p)) m;
               psums = psums[m := psums ! (m - 1) + prob];
               tl_i = unat (type_tail st p)
           in this\<lparr> path_length := len, consec_stays := stays, event_types := ets,
                    seed_prob := (psums ! m - psums ! 0) / real m,
                    fm_range := rng, kmer := km, sa_checked := sa_checked p,
                    path_type_counts := counts[tl_i := counts ! tl_i - 1],
                    prob_sums := psums \<rparr>)
         else
           (let n = unat len;
               psums = memcpy_list (prob_sums this) (prob_sums p) n;
               psums = psums[n := psums ! (n - 1) + prob]
           in this\<lparr> path_length := len, consec_stays := stays, event_types := ets,
                    seed_prob := psums ! n / real n,
                    fm_range := rng, kmer := km, sa_checked := sa_checked p,
                    path_type_counts := counts,
                    prob_sums := psums \<rparr>))"

definition invalidate :: "PathBuffer \<Rightarrow> PathBuffer" where
  "invalidate this = this\<lparr> path_length := 0 \<rparr>"

definition is_valid :: "PathBuffer \<Rightarrow> bool" where
  "is_valid this = (path_length this > 0)"

definition match_len :: "PathBuffer \<Rightarrow> u8" where
  "match_len this = path_type_counts this ! type_index MATCH"

definition is_seed_valid :: "statics \<Rightarrow> UncalledOpts \<Rightarrow> PathBuffer \<Rightarrow> bool \<Rightarrow> bool" where
  "is_seed_valid st p this path_ended =
     ((range_length (fm_range this) = 1 \<or>
         (path_ended \<and>
          unat (range_length (fm_range this)) \<le> max_rep_copy p \<and>
          unat (match_len this) \<ge> min_rep_len p)) \<and>
      unat (path_length this) \<ge> seed_len p \<and>
      (path_ended \<or> unat (type_head st this) = type_index MATCH) \<and>
      (path_ended \<or>
         real (unat (path_type_counts this ! type_index STAY)) \<le> max_stay_frac p * real (seed_len p)) \<and>
      seed_prob this \<ge> min_seed_prob p)"

definition path_less :: "PathBuffer \<Rightarrow> PathBuffer \<Rightarrow> bool" where
  "path_less p1 p2 =
     (range_less (fm_range p1) (fm_range p2) \<or>
      (range_eq (fm_range p1) (fm_range p2) \<and> seed_prob p1 < seed_prob p2))"


section \<open>The mapper and its collaborators\<close>

datatype State = INACTIVE | MAPPING | SUCCESS | FAILURE

text \<open>
  The members of \<^verbatim>\<open>ReadBuffer\<close> that \<^verbatim>\<open>mapper.cpp\<close> reads or writes.
\<close>

record ReadBuffer =
  number :: u32
  num_chunks :: nat
  chunk_processed :: bool
  chunk :: "real list"

text \<open>
  The mapper's state.  The seed tracker, the normaliser and the event detector
  are external classes: their states are type parameters and their methods are
  the functions of \<open>env\<close> below (\<^verbatim>\<open>norm_\<close> is \<open>normalizer\<close>).  \<^verbatim>\<open>read_.loc_\<close> and the timer are left out
  (no property here reads them).
\<close>

record ('t, 'n, 'd) Mapper =
  opts :: UncalledOpts
  seed_tracker :: 't
  normalizer :: 'n
  event_detector :: 'd
  state :: State
  reset :: bool
  last_chunk :: bool
  event_i :: u32
  prev_size :: nat
  prev_paths :: "PathBuffer list"
  next_paths :: "PathBuffer list"
  kmer_probs :: "real list"
  sources_added :: "bool list"
  read :: ReadBuffer

text \<open>
  The external collaborators, by the interface the mapper calls: the k-mer model,
  the FM index, the seed tracker (\<^verbatim>\<open>get_final().is_valid()\<close> is
  \<open>get_final_valid\<close>), \<^verbatim>\<open>pdqsort\<close>, the event detector, the normaliser,
  \<^verbatim>\<open>ReadBuffer::add_chunk\<close>, \<^verbatim>\<open>ReadBuffer(chunk)\<close>, \<^verbatim>\<open>Chunk::clear\<close>,
  the constant \<^verbatim>\<open>ALPH_SIZE\<close> and the default-constructed \<^verbatim>\<open>Range()\<close>.
\<close>

record ('t, 'n, 'd, 'c) env =
  kmer_count :: nat
  event_match_prob :: "real \<Rightarrow> u16 \<Rightarrow> real"
  model_get_neighbor :: "u16 \<Rightarrow> u8 \<Rightarrow> u16"
  ALPH_SIZE :: nat
  fmi_get_neighbor :: "Range \<Rightarrow> u8 \<Rightarrow> Range"
  fmi_size :: u64
  fmi_sa :: "u64 \<Rightarrow> u64"
  add_seed :: "'t \<Rightarrow> u64 \<Rightarrow> u8 \<Rightarrow> u32 \<Rightarrow> 't"
  get_final_valid :: "'t \<Rightarrow> bool"
  tracker_reset :: "'t \<Rightarrow> 't"
  pdqsort :: "PathBuffer list \<Rightarrow> PathBuffer list"
  det_add_sample :: "'d \<Rightarrow> real \<Rightarrow> bool \<times> 'd"
  det_get_mean :: "'d \<Rightarrow> real"
  det_reset :: "'d \<Rightarrow> 'd"
  norm_add_event :: "'n \<Rightarrow> real \<Rightarrow> bool \<times> 'n"
  norm_skip_unread :: "'n \<Rightarrow> u16 \<Rightarrow> u32 \<times> 'n"
  norm_skip_all :: "'n \<Rightarrow> 'n"
  read_add_chunk :: "ReadBuffer \<Rightarrow> 'c \<Rightarrow> bool \<times> ReadBuffer \<times> 'c"
  read_of_chunk :: "'c \<Rightarrow> ReadBuffer"
  chunk_clear :: "'c \<Rightarrow> 'c"
  range_default :: Range

definition deactivate :: "('t, 'n, 'd) Mapper \<Rightarrow> ('t, 'n, 'd) Mapper" where
  "deactivate m = m\<lparr> state := INACTIVE, reset := False \<rparr>"

definition new_read ::
  "('t, 'n, 'd, 'c) env \<Rightarrow> ('t, 'n, 'd) Mapper \<Rightarrow> 'c \<Rightarrow> ('t, 'n, 'd) Mapper" where
  "new_read e m c =
     m\<lparr> read := read_of_chunk e c,
        prev_size := 0,
        event_i := 0,
        reset := False,
        last_chunk := False,
        state := MAPPING,
        seed_tracker := tracker_reset e (seed_tracker m),
        event_detector := det_reset e (event_detector m),
        normalizer := norm_skip_all e (normalizer m) \<rparr>"

definition prev_unfinished :: "('t, 'n, 'd) Mapper \<Rightarrow> u32 \<Rightarrow> bool" where
  "prev_unfinished m next_number = (state m = MAPPING \<and> number (read m) \<noteq> next_number)"

definition finished :: "('t, 'n, 'd) Mapper \<Rightarrow> bool" where
  "finished m = (state m = SUCCESS \<or> state m = FAILURE)"

definition skip_events :: "('t, 'n, 'd) Mapper \<Rightarrow> u32 \<Rightarrow> ('t, 'n, 'd) Mapper" where
  "skip_events m n = m\<lparr> event_i := event_i m + n, prev_size := 0 \<rparr>"

definition request_reset :: "('t, 'n, 'd) Mapper \<Rightarrow> ('t, 'n, 'd) Mapper" where
  "request_reset m = m\<lparr> reset := True \<rparr>"

definition end_reset :: "('t, 'n, 'd) Mapper \<Rightarrow> ('t, 'n, 'd) Mapper" where
  "end_reset m = m\<lparr> reset := False \<rparr>"

definition is_resetting :: "('t, 'n, 'd) Mapper \<Rightarrow> bool" where
  "is_resetting m = reset m"



text \<open>
  One iteration of the sample loop of \<^verbatim>\<open>process_chunk\<close>.  The third component
  of the result is true when the iteration returns from the function (the event
  fits the normaliser not even after draining it).
\<close>

definition process_sample ::
  "('t, 'n, 'd, 'c) env \<Rightarrow> ('t, 'n, 'd) Mapper \<Rightarrow> u16 \<Rightarrow> real \<Rightarrow> ('t, 'n, 'd) Mapper \<times> u16 \<times> bool" where
  "process_sample e m nevents s =
     (case det_add_sample e (event_detector m) s of
        (False, d) \<Rightarrow> (m\<lparr> event_detector := d \<rparr>, nevents, False)
      | (True, d) \<Rightarrow>
          (let m = m\<lparr> event_detector := d \<rparr>;
               mean = det_get_mean e d
           in case norm_add_event e (normalizer m) mean of
                (True, n) \<Rightarrow> (m\<lparr> normalizer := n \<rparr>, nevents + 1, False)
              | (False, n) \<Rightarrow>
                  (case norm_skip_unread e n nevents of
                     (nskip, n) \<Rightarrow>
                       (let m = skip_events (m\<lparr> normalizer := n \<rparr>) nskip
                        in case norm_add_event e (normalizer m) mean of
                             (False, n) \<Rightarrow> (m\<lparr> normalizer := n \<rparr>, nevents, True)
                           | (True, n) \<Rightarrow> (m\<lparr> normalizer := n \<rparr>, nevents + 1, False)))))"

fun process_samples ::
  "('t, 'n, 'd, 'c) env \<Rightarrow> real list \<Rightarrow> ('t, 'n, 'd) Mapper \<Rightarrow> u16 \<Rightarrow> ('t, 'n, 'd) Mapper \<times> u16 \<times> bool" where
  "process_samples e [] m nevents = (m, nevents, False)"
| "process_samples e (s # ss) m nevents =
     (case process_sample e m nevents s of
        (m', n', True) \<Rightarrow> (m', n', True)
      | (m', n', False) \<Rightarrow> process_samples e ss m' n')"

definition process_chunk ::
  "('t, 'n, 'd, 'c) env \<Rightarrow> ('t, 'n, 'd) Mapper \<Rightarrow> ('t, 'n, 'd) Mapper \<times> u16" where
  "process_chunk e m =
     (if chunk_processed (read m) \<or> reset m then (m, 0)
      else
        (case process_samples e (chunk (read m)) m 0 of
           (m', n, True) \<Rightarrow> (m', n)
         | (m', n, False) \<Rightarrow>
             (m'\<lparr> read := (read m')\<lparr> chunk := [], chunk_processed := True \<rparr> \<rparr>, n)))"

text \<open>
  \<^verbatim>\<open>end_read\<close> returns the flag it stores.
\<close>

definition end_read :: "('t, 'n, 'd) Mapper \<Rightarrow> u32 \<Rightarrow> bool \<times> ('t, 'n, 'd) Mapper" where
  "end_read m n = (number (read m) = n, m\<lparr> reset := (number (read m) = n) \<rparr>)"


section \<open>Seed verification\<close>

text \<open>
  The loop \<^verbatim>\<open>for (u64 s = start_; s <= end_; s++)\<close> of \<^verbatim>\<open>update_seeds\<close>.
  The counter wraps, so with \<^verbatim>\<open>end_\<close> the largest \<^verbatim>\<open>u64\<close> the loop never
  ends: the result \<open>None\<close> stands for a call that does not return.
\<close>

partial_function (option) seed_loop ::
  "('t, 'n, 'd, 'c) env \<Rightarrow> u64 \<Rightarrow> u64 \<Rightarrow> u8 \<Rightarrow> u32 \<Rightarrow> 't \<Rightarrow> 't option" where
  "seed_loop e s en ml evt trk =
     (if s \<le> en then
        seed_loop e (s + 1) en ml evt (add_seed e trk (fmi_size e - fmi_sa e s + 1) ml evt)
      else Some trk)"

declare seed_loop.simps [code]

text \<open>
  \<^verbatim>\<open>update_seeds(p, path_ended)\<close>: \<open>p\<close> is a reference into one of the beams;
  the result is the path and the mapper after the call.
\<close>

definition update_seeds ::
  "('t, 'n, 'd, 'c) env \<Rightarrow> statics \<Rightarrow> ('t, 'n, 'd) Mapper \<Rightarrow> PathBuffer \<Rightarrow> bool \<Rightarrow>
     (PathBuffer \<times> ('t, 'n, 'd) Mapper) option" where
  "update_seeds e st m p path_ended =
     (if is_seed_valid st (opts m) p path_ended then
        (case seed_loop e (range_start (fm_range p)) (range_end (fm_range p)) (match_len p)
                (event_i m - (if path_ended then 1 else 0)) (seed_tracker m) of
           None \<Rightarrow> None
         | Some trk \<Rightarrow> Some (p\<lparr> sa_checked := True \<rparr>, m\<lparr> seed_tracker := trk \<rparr>))
      else Some (p, m))"

section \<open>The event step \<^verbatim>\<open>add_event\<close>\<close>

text \<open>
  \<^verbatim>\<open>next_path\<close> is the index \<open>np\<close> into \<open>next_paths\<close>;
  \<^verbatim>\<open>next_paths_.end()\<close> is \<open>length (next_paths m)\<close>.
\<close>

definition put_next ::
  "('t, 'n, 'd) Mapper \<Rightarrow> nat \<Rightarrow> PathBuffer \<Rightarrow> ('t, 'n, 'd) Mapper" where
  "put_next m i p = m\<lparr> next_paths := (next_paths m)[i := p] \<rparr>"

text \<open>The STAY child of \<open>prev_path\<close>: the mapper, the cursor and \<^verbatim>\<open>child_found\<close>.\<close>

definition add_stay ::
  "statics \<Rightarrow> PathBuffer \<Rightarrow> real \<Rightarrow> ('t, 'n, 'd) Mapper \<Rightarrow> nat \<Rightarrow> ('t, 'n, 'd) Mapper \<times> nat \<times> bool" where
  "add_stay st prev_path evpr_thresh m np =
     (let prev_kmer = kmer prev_path in
      if unat (consec_stays prev_path) < max_consec_stay (opts m) \<and>
         kmer_probs m ! unat prev_kmer \<ge> evpr_thresh
      then (put_next m np (make_child st (next_paths m ! np) prev_path (fm_range prev_path)
                             prev_kmer (kmer_probs m ! unat prev_kmer) STAY),
            Suc np, True)
      else (m, np, False))"

text \<open>The loop over the bases \<^verbatim>\<open>b < ALPH_SIZE\<close>; it stops when the beam is full.\<close>

fun add_neighbors ::
  "('t, 'n, 'd, 'c) env \<Rightarrow> statics \<Rightarrow> PathBuffer \<Rightarrow> real \<Rightarrow> nat list \<Rightarrow>
     ('t, 'n, 'd) Mapper \<Rightarrow> nat \<Rightarrow> bool \<Rightarrow> ('t, 'n, 'd) Mapper \<times> nat \<times> bool" where
  "add_neighbors e st prev_path evpr_thresh [] m np child_found = (m, np, child_found)"
| "add_neighbors e st prev_path evpr_thresh (b # bs) m np child_found =
     (let next_kmer = model_get_neighbor e (kmer prev_path) (of_nat b) in
      if kmer_probs m ! unat next_kmer < evpr_thresh then
        add_neighbors e st prev_path evpr_thresh bs m np child_found
      else
        (let next_range = fmi_get_neighbor e (fm_range prev_path) (of_nat b) in
         if \<not> range_is_valid next_range then
           add_neighbors e st prev_path evpr_thresh bs m np child_found
         else
           (let m' = put_next m np (make_child st (next_paths m ! np) prev_path next_range
                                     next_kmer (kmer_probs m ! unat next_kmer) MATCH)
            in if Suc np = length (next_paths m') then (m', Suc np, True)
               else add_neighbors e st prev_path evpr_thresh bs m' (Suc np) True)))"

text \<open>
  The loop over \<^verbatim>\<open>pi < prev_size_\<close>.  \<open>None\<close> when a call of
  \<^verbatim>\<open>update_seeds\<close> does not return.
\<close>

fun extend_prev ::
  "('t, 'n, 'd, 'c) env \<Rightarrow> statics \<Rightarrow> nat list \<Rightarrow> ('t, 'n, 'd) Mapper \<Rightarrow> nat \<Rightarrow>
     (('t, 'n, 'd) Mapper \<times> nat) option" where
  "extend_prev e st [] m np = Some (m, np)"
| "extend_prev e st (i # is) m np =
     (let prev_path = prev_paths m ! i in
      if \<not> is_valid prev_path then extend_prev e st is m np
      else
        (let evpr_thresh = get_prob_thresh (opts m) (range_length (fm_range prev_path)) in
         case add_stay st prev_path evpr_thresh m np of
           (m1, np1, found1) \<Rightarrow>
             if found1 \<and> np1 = length (next_paths m1) then Some (m1, np1)
             else
               (case add_neighbors e st prev_path evpr_thresh [0 ..< ALPH_SIZE e] m1 np1 found1 of
                  (m2, np2, found2) \<Rightarrow>
                    (case (if \<not> found2 \<and> \<not> sa_checked prev_path
                           then update_seeds e st m2 prev_path True
                           else Some (prev_path, m2)) of
                       None \<Rightarrow> None
                     | Some (p', m3) \<Rightarrow>
                         (let m4 = m3\<lparr> prev_paths := (prev_paths m3)[i := p'] \<rparr>
                          in if np2 = length (next_paths m4) then Some (m4, np2)
                             else extend_prev e st is m4 np2)))))"


text \<open>
  Writing a source path into the slot at the cursor, when its range is valid.
\<close>

definition put_source ::
  "('t, 'n, 'd) Mapper \<Rightarrow> nat \<Rightarrow> Range \<Rightarrow> u16 \<Rightarrow> ('t, 'n, 'd) Mapper \<times> nat" where
  "put_source m np source_range source_kmer =
     (if range_is_valid source_range then
        (put_next m np (make_source (next_paths m ! np) source_range source_kmer
                          (kmer_probs m ! unat source_kmer)),
         Suc np)
      else (m, np))"

text \<open>
  The block \<^emph>\<open>Add source for beginning of kmer range\<close> of the loop over the
  sorted children: the mapper, the cursor and \<^verbatim>\<open>unchecked_range\<close> after it.
\<close>

definition source_before ::
  "('t, 'n, 'd) Mapper \<Rightarrow> nat \<Rightarrow> nat \<Rightarrow> u16 \<Rightarrow> u16 \<Rightarrow> Range \<Rightarrow>
     ('t, 'n, 'd) Mapper \<times> nat \<times> Range" where
  "source_before m np i source_kmer prev_kmer unchecked_range =
     (if source_kmer \<noteq> prev_kmer \<and> np \<noteq> length (next_paths m) \<and>
         kmer_probs m ! unat source_kmer \<ge> get_source_prob (opts m)
      then
        (let m1 = m\<lparr> sources_added := (sources_added m)[unat source_kmer := True] \<rparr>;
             source_range =
               \<lparr> range_start = range_start (kmer_fmranges (opts m) source_kmer),
                 range_end = range_start (fm_range (next_paths m ! i)) - 1 \<rparr>
         in case put_source m1 np source_range source_kmer of
              (m2, np2) \<Rightarrow>
                (m2, np2,
                 \<lparr> range_start = range_end (fm_range (next_paths m2 ! i)) + 1,
                   range_end = range_end (kmer_fmranges (opts m) source_kmer) \<rparr>))
      else (m, np, unchecked_range))"

text \<open>The block \<^emph>\<open>Start source after current path\<close>.\<close>

definition source_after ::
  "('t, 'n, 'd) Mapper \<Rightarrow> nat \<Rightarrow> nat \<Rightarrow> nat \<Rightarrow> u16 \<Rightarrow> Range \<Rightarrow>
     ('t, 'n, 'd) Mapper \<times> nat \<times> Range" where
  "source_after m np next_size i source_kmer unchecked_range =
     (if np \<noteq> length (next_paths m) \<and>
         kmer_probs m ! unat source_kmer \<ge> get_source_prob (opts m)
      then
        (if i < next_size - 1 \<and> source_kmer = kmer (next_paths m ! (i + 1)) then
           (let nxt = fm_range (next_paths m ! (i + 1));
                source_range = unchecked_range\<lparr> range_end := range_start nxt - 1 \<rparr>;
                unchecked_range =
                  (if range_start unchecked_range \<le> range_end nxt
                   then unchecked_range\<lparr> range_start := range_end nxt + 1 \<rparr>
                   else unchecked_range)
            in case put_source m np source_range source_kmer of
                 (m1, np1) \<Rightarrow> (m1, np1, unchecked_range))
         else
           (case put_source m np unchecked_range source_kmer of
              (m1, np1) \<Rightarrow> (m1, np1, unchecked_range)))
      else (m, np, unchecked_range))"

text \<open>
  The loop \<^verbatim>\<open>for (u32 i = 0; i < next_size; i++)\<close> over the sorted children:
  sources before and after each child, removal of duplicate ranges, seed
  verification.
\<close>

fun dedup_loop ::
  "('t, 'n, 'd, 'c) env \<Rightarrow> statics \<Rightarrow> nat \<Rightarrow> nat list \<Rightarrow> ('t, 'n, 'd) Mapper \<Rightarrow> nat \<Rightarrow> u16 \<Rightarrow> Range \<Rightarrow>
     (('t, 'n, 'd) Mapper \<times> nat) option" where
  "dedup_loop e st next_size [] m np prev_kmer unchecked_range = Some (m, np)"
| "dedup_loop e st next_size (i # is) m np prev_kmer unchecked_range =
     (let source_kmer = kmer (next_paths m ! i) in
      case source_before m np i source_kmer prev_kmer unchecked_range of
        (m1, np1, unchecked1) \<Rightarrow>
          if i < next_size - 1 \<and>
             range_eq (fm_range (next_paths m1 ! i)) (fm_range (next_paths m1 ! (i + 1)))
          then dedup_loop e st next_size is
                 (put_next m1 i (invalidate (next_paths m1 ! i))) np1 source_kmer unchecked1
          else
            (case source_after m1 np1 next_size i source_kmer unchecked1 of
               (m2, np2, unchecked2) \<Rightarrow>
                 (case update_seeds e st m2 (next_paths m2 ! i) False of
                    None \<Rightarrow> None
                  | Some (p', m3) \<Rightarrow>
                      dedup_loop e st next_size is (put_next m3 i p') np2 source_kmer unchecked2)))"

text \<open>
  The sort, then the loop; nothing when no child was written.  \<^verbatim>\<open>prev_kmer\<close>
  starts at \<^verbatim>\<open>model_.kmer_count()\<close>, stored in a \<^verbatim>\<open>u16\<close>.
\<close>

definition sort_dedup ::
  "('t, 'n, 'd, 'c) env \<Rightarrow> statics \<Rightarrow> ('t, 'n, 'd) Mapper \<Rightarrow> nat \<Rightarrow> (('t, 'n, 'd) Mapper \<times> nat) option" where
  "sort_dedup e st m np =
     (if np \<noteq> 0 then
        (let next_size = np;
             m1 = m\<lparr> next_paths := pdqsort e (take next_size (next_paths m)) @
                                      drop next_size (next_paths m) \<rparr>
         in dedup_loop e st next_size [0 ..< next_size] m1 np (of_nat (kmer_count e))
              (range_default e))
      else Some (m, np))"

text \<open>
  The last loop, over all k-mers while slots remain: a source over the whole
  k-mer range, or the reset of the k-mer's flag.
\<close>

fun add_sources ::
  "nat list \<Rightarrow> ('t, 'n, 'd) Mapper \<Rightarrow> nat \<Rightarrow> ('t, 'n, 'd) Mapper \<times> nat" where
  "add_sources [] m np = (m, np)"
| "add_sources (k # ks) m np =
     (if np = length (next_paths m) then (m, np)
      else
        (let next_range = kmer_fmranges (opts m) (of_nat k) in
         if \<not> sources_added m ! k \<and>
            kmer_probs m ! k \<ge> get_source_prob (opts m) \<and>
            np \<noteq> length (next_paths m) \<and>
            range_is_valid next_range
         then add_sources ks
                (put_next m np (make_source (next_paths m ! np) next_range (of_nat k)
                                  (kmer_probs m ! k)))
                (Suc np)
         else add_sources ks (m\<lparr> sources_added := (sources_added m)[k := False] \<rparr>) np))"

text \<open>
  \<^verbatim>\<open>add_event\<close>: whether the read is finished, and the mapper after the call.
  \<^verbatim>\<open>set_ref_loc\<close> writes \<^verbatim>\<open>read_.loc_\<close> only.  The k-mer loops count in a
  \<^verbatim>\<open>u16\<close>, so for a model with more than 65535 k-mers the first of them never
  ends (\<open>None\<close>); the base loop counts in a \<^verbatim>\<open>u8\<close> up to the constant
  \<^verbatim>\<open>ALPH_SIZE\<close>, taken to be below 256.
\<close>

definition add_event ::
  "('t, 'n, 'd, 'c) env \<Rightarrow> statics \<Rightarrow> ('t, 'n, 'd) Mapper \<Rightarrow> real \<Rightarrow>
     (bool \<times> ('t, 'n, 'd) Mapper) option" where
  "add_event e st m event =
     (if reset m \<or> unat (event_i m) \<ge> max_events_proc (opts m) then
        Some (True, m\<lparr> reset := False, state := FAILURE \<rparr>)
      else if kmer_count e > 65535 then None
      else
        (let m1 = m\<lparr> kmer_probs :=
                       map (\<lambda>k. event_match_prob e event (of_nat k)) [0 ..< kmer_count e] \<rparr>
         in case extend_prev e st [0 ..< prev_size m1] m1 0 of
              None \<Rightarrow> None
            | Some (m2, np2) \<Rightarrow>
                (case sort_dedup e st m2 np2 of
                   None \<Rightarrow> None
                 | Some (m3, np3) \<Rightarrow>
                     (case add_sources [0 ..< kmer_count e] m3 np3 of
                        (m4, np4) \<Rightarrow>
                          (let m5 = m4\<lparr> prev_size := np4,
                                        prev_paths := next_paths m4,
                                        next_paths := prev_paths m4,
                                        event_i := event_i m4 + 1 \<rparr>
                           in if get_final_valid e (seed_tracker m5)
                              then Some (True, m5\<lparr> state := SUCCESS \<rparr>)
                              else Some (False, m5))))))"


section \<open>Feeding events\<close>

text \<open>
  The caller's loop over the events of a read (\<^verbatim>\<open>if (add_event(e)) break;\<close>):
  whether the read is finished, and the mapper after the last call.
\<close>

fun add_events ::
  "('t, 'n, 'd, 'c) env \<Rightarrow> statics \<Rightarrow> ('t, 'n, 'd) Mapper \<Rightarrow> real list \<Rightarrow>
     (bool \<times> ('t, 'n, 'd) Mapper) option" where
  "add_events e st m [] = Some (False, m)"
| "add_events e st m (ev # evs) =
     (case add_event e st m ev of
        None \<Rightarrow> None
      | Some (True, m') \<Rightarrow> Some (True, m')
      | Some (False, m') \<Rightarrow> add_events e st m' evs)"

text \<open>The members that only the entry and the exit of \<^verbatim>\<open>add_event\<close> write.\<close>

definition ctl :: "('t, 'n, 'd) Mapper \<Rightarrow> u32 \<times> bool \<times> State \<times> UncalledOpts" where
  "ctl m = (event_i m, reset m, state m, opts m)"

section \<open>The sorted children and the sources between them\<close>

text \<open>
  Notions for the loop over the sorted children: what it keeps of the beam, where
  it finds a duplicate, what it leaves of a child, when the children are
  consistent with the k-mer ranges (as the ranges of an FM index are), the
  sources added so far, and the invariants of the loop.
\<close>

definition keeps :: "nat \<Rightarrow> ('t, 'n, 'd) Mapper \<Rightarrow> nat \<Rightarrow> ('t, 'n, 'd) Mapper \<Rightarrow> nat \<Rightarrow> bool" where
  "keeps n m np m' np' \<longleftrightarrow>
     length (next_paths m') = length (next_paths m) \<and> np \<le> np' \<and> np' \<le> length (next_paths m') \<and>
     (\<forall>j < n. next_paths m' ! j = next_paths m ! j)"

definition dup_at :: "nat \<Rightarrow> PathBuffer list \<Rightarrow> nat \<Rightarrow> bool" where
  "dup_at n ps j \<longleftrightarrow> j < n - 1 \<and> range_eq (fm_range (ps ! j)) (fm_range (ps ! (j + 1)))"

definition processed :: "nat \<Rightarrow> PathBuffer list \<Rightarrow> nat \<Rightarrow> PathBuffer \<Rightarrow> bool" where
  "processed n ps j p' \<longleftrightarrow>
     (if dup_at n ps j then p' = invalidate (ps ! j) else p'\<lparr> sa_checked := sa_checked (ps ! j) \<rparr> = ps ! j)"

definition inside :: "Range \<Rightarrow> Range \<Rightarrow> bool" where
  "inside a b \<longleftrightarrow> range_start b \<le> range_start a \<and> range_end a \<le> range_end b"

definition disjoint_ranges :: "Range \<Rightarrow> Range \<Rightarrow> bool" where
  "disjoint_ranges a b \<longleftrightarrow> range_end a < range_start b \<or> range_end b < range_start a"

definition fm_consistent :: "UncalledOpts \<Rightarrow> PathBuffer list \<Rightarrow> bool" where
  "fm_consistent opt cs \<longleftrightarrow>
     list_all (\<lambda>c. range_is_valid (fm_range c) \<and>
                   inside (fm_range c) (kmer_fmranges opt (kmer c)) \<and>
                   range_start (fm_range c) \<noteq> 0 \<and>
                   range_end (kmer_fmranges opt (kmer c)) \<noteq> - 1) cs \<and>
     list_all (\<lambda>c. list_all (\<lambda>d. kmer c = kmer d \<or>
                   disjoint_ranges (kmer_fmranges opt (kmer c)) (kmer_fmranges opt (kmer d))) cs) cs"

definition sources_of :: "nat \<Rightarrow> nat \<Rightarrow> PathBuffer list \<Rightarrow> PathBuffer list" where
  "sources_of n np nxt = drop n (take np nxt)"

definition base_inv ::
  "UncalledOpts \<Rightarrow> PathBuffer list \<Rightarrow> nat \<Rightarrow> nat \<Rightarrow> PathBuffer list \<Rightarrow> nat \<Rightarrow> bool" where
  "base_inv opt S cap i nxt np \<longleftrightarrow>
     length S \<le> np \<and> np \<le> cap \<and> length nxt = cap \<and>
     (\<forall>j < length S. kmer (nxt ! j) = kmer (S ! j) \<and> fm_range (nxt ! j) = fm_range (S ! j)) \<and>
     distinct (map fm_range (sources_of (length S) np nxt)) \<and>
     (\<forall>p \<in> set (sources_of (length S) np nxt).
        range_is_valid (fm_range p) \<and> inside (fm_range p) (kmer_fmranges opt (kmer p)) \<and>
        (\<exists>j < i. j < length S \<and> kmer p = kmer (S ! j)) \<and>
        (\<forall>j < length S. fm_range p \<noteq> fm_range (S ! j)))"

definition unch ::
  "UncalledOpts \<Rightarrow> real list \<Rightarrow> PathBuffer list \<Rightarrow> nat \<Rightarrow> nat \<Rightarrow> PathBuffer list \<Rightarrow> nat \<Rightarrow> u16 \<Rightarrow> Range \<Rightarrow> bool" where
  "unch opt kp S cap i nxt np k u \<longleftrightarrow>
     (np \<noteq> cap \<and> get_source_prob opt \<le> kp ! unat k \<longrightarrow>
        range_end u = range_end (kmer_fmranges opt k) \<and>
        (\<forall>j \<le> i. j < length S \<and> kmer (S ! j) = k \<longrightarrow> range_end (fm_range (S ! j)) < range_start u) \<and>
        (\<forall>p \<in> set (sources_of (length S) np nxt). kmer p = k \<longrightarrow> range_end (fm_range p) < range_start u))"

section \<open>Paths by their history\<close>

text \<open>
  A path of the beam is a source extended by a sequence of \<^verbatim>\<open>make_child\<close>
  calls.  An extension names the slot written, the range, the k-mer, the
  probability and the event type; the list is in the order of the events.
\<close>

type_synonym extension = "PathBuffer \<times> Range \<times> u16 \<times> real \<times> EventType"

fun extend_path :: "statics \<Rightarrow> PathBuffer \<Rightarrow> extension list \<Rightarrow> PathBuffer" where
  "extend_path st p [] = p"
| "extend_path st p ((this, r, k, pr, t) # xs) =
     extend_path st (make_child st this p r k pr t) xs"

definition ext_type :: "extension \<Rightarrow> EventType" where
  "ext_type x = snd (snd (snd (snd x)))"

text \<open>
  The field of \<open>event_types\<close> at position \<open>j\<close>, counted from the
  least-significant end, read the way \<^verbatim>\<open>type_head\<close> and \<^verbatim>\<open>type_tail\<close> read
  theirs.
\<close>

definition type_field :: "statics \<Rightarrow> PathBuffer \<Rightarrow> nat \<Rightarrow> u8" where
  "type_field st this j =
     ucast (drop_bit (TYPE_BITS st * j) (event_types this) AND ucast (TYPE_MASK st))"

text \<open>
  The oldest event type that a window of the last \<open>w\<close> extension types still
  holds (the window of a path is \<^verbatim>\<open>MAX_PATH_LEN - 1\<close> fields wide).
\<close>

definition oldest_retained :: "nat \<Rightarrow> EventType list \<Rightarrow> EventType" where
  "oldest_retained w ts = hd (drop (length ts - w) ts)"

text \<open>
  The window of the last \<open>n\<close> event types of a history, oldest first; a history
  shorter than the window is filled up with MATCH (the zero fields of a source).
\<close>

definition window :: "nat \<Rightarrow> EventType list \<Rightarrow> EventType list" where
  "window n ts = drop (length ts) (replicate n MATCH @ ts)"

section \<open>A small configuration\<close>

text \<open>
  Two 1-mers over a two-letter alphabet, a seed length of 3 and a beam of two
  slots.  Suffix-array rows 1 to 4 start with k-mer 0 and rows 5 to 8 with
  k-mer 1; the match probability of an event is minus its distance from the
  k-mer's level (0 and 10).  The tracker keeps the seeds it is given, the
  detector passes every sample on as an event, the normaliser holds two events.
\<close>

definition ex_opts :: UncalledOpts where
  "ex_opts =
     \<lparr> seed_len = 3, max_paths = 2, max_consec_stay = 8, max_stay_frac = 1 / 2,
       min_seed_prob = - 4, max_rep_copy = 3, min_rep_len = 2, max_events_proc = 3,
       max_chunks_proc = 2,
       kmer_fmranges = (\<lambda>k. if k = 0 then \<lparr> range_start = 1, range_end = 4 \<rparr>
                            else if k = 1 then \<lparr> range_start = 5, range_end = 8 \<rparr>
                            else \<lparr> range_start = 1, range_end = 0 \<rparr>),
       get_prob_thresh = (\<lambda>n. - 2),
       get_source_prob = - 3 \<rparr>"

definition ex_st :: statics where
  "ex_st = init_statics 2 ex_opts"

definition empty_path :: PathBuffer where
  "empty_path =
     \<lparr> path_length = 0, consec_stays = 0, event_types = 0, seed_prob = 0,
       fm_range = \<lparr> range_start = 1, range_end = 0 \<rparr>, kmer = 0, sa_checked = False,
       path_type_counts = [0, 0], prob_sums = [0, 0, 0, 0] \<rparr>"

fun insert_path :: "PathBuffer \<Rightarrow> PathBuffer list \<Rightarrow> PathBuffer list" where
  "insert_path p [] = [p]"
| "insert_path p (q # qs) = (if path_less q p then q # insert_path p qs else p # q # qs)"

definition sort_paths :: "PathBuffer list \<Rightarrow> PathBuffer list" where
  "sort_paths ps = foldr insert_path ps []"

type_synonym ex_tracker = "(u64 \<times> u8 \<times> u32) list"
type_synonym ex_chunk = "u32 \<times> real list"

definition ex_env :: "(ex_tracker, real list, real, ex_chunk) env" where
  "ex_env =
     \<lparr> kmer_count = 2,
       event_match_prob = (\<lambda>x k. if k = 0 then - \<bar>x\<bar> else - \<bar>x - 10\<bar>),
       model_get_neighbor = (\<lambda>k b. ucast b),
       ALPH_SIZE = 2,
       fmi_get_neighbor =
         (\<lambda>r b. if range_start r = 1 \<and> range_end r = 4 \<and> b = 1
                then \<lparr> range_start = 6, range_end = 7 \<rparr>
                else \<lparr> range_start = 1, range_end = 0 \<rparr>),
       fmi_size = 9,
       fmi_sa = (\<lambda>s. 9 - s),
       add_seed = (\<lambda>t ref_en ml evt. t @ [(ref_en, ml, evt)]),
       get_final_valid = (\<lambda>t. length t \<ge> 2),
       tracker_reset = (\<lambda>t. []),
       pdqsort = sort_paths,
       det_add_sample = (\<lambda>d s. (True, s)),
       det_get_mean = (\<lambda>d. d),
       det_reset = (\<lambda>d. 0),
       norm_add_event = (\<lambda>n x. if length n < 2 then (True, n @ [x]) else (False, n)),
       norm_skip_unread = (\<lambda>n k. (of_nat (length n), [])),
       norm_skip_all = (\<lambda>n. []),
       read_add_chunk =
         (\<lambda>r c. if chunk_processed r \<and> number r = fst c
                then (True,
                      r\<lparr> num_chunks := num_chunks r + 1, chunk_processed := False,
                         chunk := snd c \<rparr>,
                      (fst c, chunk r))
                else (False, r, c)),
       read_of_chunk =
         (\<lambda>c. \<lparr> number = fst c, num_chunks = 1, chunk_processed = False, chunk = snd c \<rparr>),
       chunk_clear = (\<lambda>c. (fst c, [])),
       range_default = \<lparr> range_start = 1, range_end = 0 \<rparr> \<rparr>"

text \<open>The mapper as \<^verbatim>\<open>Mapper::Mapper\<close> leaves it, and after \<^verbatim>\<open>new_read\<close>.\<close>

definition ex_mapper :: "(ex_tracker, real list, real) Mapper" where
  "ex_mapper =
     \<lparr> opts = ex_opts, seed_tracker = [], normalizer = [], event_detector = 0,
       state = INACTIVE, reset = False, last_chunk = False, event_i = 0, prev_size = 0,
       prev_paths = [empty_path, empty_path], next_paths = [empty_path, empty_path],
       kmer_probs = [0, 0], sources_added = [False, False],
       read = \<lparr> number = 0, num_chunks = 0, chunk_processed = True, chunk = [] \<rparr> \<rparr>"

definition ex_read :: "(ex_tracker, real list, real) Mapper" where
  "ex_read = new_read ex_env ex_mapper (7, [1, 2, 3])"


text \<open>
  After \<^verbatim>\<open>process_chunk\<close> has consumed the chunk; the same with the chunk limit
  reached; a source, a path of three events (source, STAY, MATCH) and a mapper
  whose beam holds them.
\<close>

definition ex_done :: "(ex_tracker, real list, real) Mapper" where
  "ex_done = ex_read\<lparr> read := (read ex_read)\<lparr> chunk := [], chunk_processed := True \<rparr> \<rparr>"

definition ex_full :: "(ex_tracker, real list, real) Mapper" where
  "ex_full = ex_done\<lparr> read := (read ex_done)\<lparr> num_chunks := 2 \<rparr> \<rparr>"

definition ex_source :: PathBuffer where
  "ex_source = make_source empty_path \<lparr> range_start = 5, range_end = 8 \<rparr> 1 (- 1)"

definition ex_exts :: "extension list" where
  "ex_exts =
     [(empty_path, \<lparr> range_start = 5, range_end = 8 \<rparr>, 1, - 2, STAY),
      (empty_path, \<lparr> range_start = 2, range_end = 2 \<rparr>, 0, - 1, MATCH)]"

definition ex_path3 :: PathBuffer where
  "ex_path3 = extend_path ex_st ex_source ex_exts"

definition ex_busy :: "(ex_tracker, real list, real) Mapper" where
  "ex_busy = ex_read\<lparr> event_i := 2, prev_size := 2, prev_paths := [ex_path3, ex_source] \<rparr>"

text \<open>The path \<open>ex_path3\<close> over a repeat of two suffix-array rows.\<close>

definition ex_repeat :: PathBuffer where
  "ex_repeat = ex_path3\<lparr> fm_range := \<lparr> range_start = 6, range_end = 7 \<rparr> \<rparr>"

text \<open>
  The example read after its first, second and third event (means 0, 10 and
  7.5): a source of k-mer 0; its MATCH child of k-mer 1 and a source before it,
  which fills the beam; nothing.
\<close>

definition ex_src0 :: PathBuffer where
  "ex_src0 = make_source empty_path \<lparr> range_start = 1, range_end = 4 \<rparr> 0 0"

definition ex_after1 :: "(ex_tracker, real list, real) Mapper" where
  "ex_after1 =
     ex_read\<lparr> kmer_probs := [0, - 10], prev_size := 1, prev_paths := [ex_src0, empty_path],
              event_i := 1 \<rparr>"

definition ex_child :: PathBuffer where
  "ex_child = make_child ex_st empty_path ex_src0 \<lparr> range_start = 6, range_end = 7 \<rparr> 1 0 MATCH"

definition ex_src1 :: PathBuffer where
  "ex_src1 = make_source empty_path \<lparr> range_start = 5, range_end = 5 \<rparr> 1 0"

definition ex_after2 :: "(ex_tracker, real list, real) Mapper" where
  "ex_after2 =
     ex_after1\<lparr> kmer_probs := [- 10, 0], sources_added := [False, True], prev_size := 2,
                prev_paths := [ex_child, ex_src1], next_paths := [ex_src0, empty_path],
                event_i := 2 \<rparr>"

definition ex_after3 :: "(ex_tracker, real list, real) Mapper" where
  "ex_after3 =
     ex_after2\<lparr> kmer_probs := [- (15 / 2), - (5 / 2)], sources_added := [False, False],
                prev_size := 0, prev_paths := [ex_src0, empty_path],
                next_paths := [ex_child, ex_src1], event_i := 3 \<rparr>"

text \<open>
  Two children of the same range \<open>[6, 7]\<close> of k-mer 1 and a free third slot.
\<close>

definition ex_twins :: "(ex_tracker, real list, real) Mapper" where
  "ex_twins =
     ex_after1\<lparr> kmer_probs := [- 10, 0],
                next_paths :=
                  [make_child ex_st empty_path ex_src0 \<lparr> range_start = 6, range_end = 7 \<rparr> 1 0 MATCH,
                   make_child ex_st empty_path ex_src0 \<lparr> range_start = 6, range_end = 7 \<rparr> 1 (- 1) MATCH,
                   empty_path] \<rparr>"

text \<open>
  An FM index that is not consistent with the k-mer ranges: extending by base 0
  gives the rows \<open>[7, 8]\<close>, outside the range \<open>[1, 4]\<close> of k-mer 0.  Four
  slots, both thresholds at -6.
\<close>

definition ex_env2 :: "(ex_tracker, real list, real, ex_chunk) env" where
  "ex_env2 =
     ex_env\<lparr> fmi_get_neighbor :=
                (\<lambda>r b. if b = 0 then \<lparr> range_start = 7, range_end = 8 \<rparr>
                       else \<lparr> range_start = 5, range_end = 6 \<rparr>) \<rparr>"

definition ex_opts2 :: UncalledOpts where
  "ex_opts2 = ex_opts\<lparr> max_paths := 4, get_prob_thresh := (\<lambda>n. - 6), get_source_prob := - 6 \<rparr>"

definition ex_clash :: "(ex_tracker, real list, real) Mapper" where
  "ex_clash =
     ex_after1\<lparr> opts := ex_opts2,
                prev_paths := [ex_src0, empty_path, empty_path, empty_path],
                next_paths := [empty_path, empty_path, empty_path, empty_path] \<rparr>"

section \<open>Properties\<close>

subsection \<open>Words and example values\<close>

lemma unat_plus_one: "s \<noteq> - 1 \<Longrightarrow> unat (s + 1) = Suc (unat s)" for s :: "'a::len word"
  using unatSuc [of s] max_word_wrap [of s] by (auto simp: add.commute)

lemma upt2: "[0 ..< 2] = [0, Suc 0]"
  by (simp add: upt_rec)

lemmas ex_defs =
  ex_read_def new_read_def ex_mapper_def ex_env_def ex_opts_def ex_st_def init_statics_def
  empty_path_def ex_source_def ex_path3_def ex_exts_def ex_busy_def ex_done_def ex_full_def ex_repeat_def

lemma ex_st_eq:
  "ex_st = \<lparr> TYPE_BITS = 2, MAX_PATH_LEN = 3, TYPE_MASK = 3, TYPE_ADDS = [0, 4] \<rparr>"
  by (simp add: ex_st_def init_statics_def ex_opts_def NUM_TYPES_def upt2)

lemma ex_path3_eq:
  "ex_path3 =
     \<lparr> path_length = 3, consec_stays = 0, event_types = 1, seed_prob = - (4 / 3),
       fm_range = \<lparr> range_start = 2, range_end = 2 \<rparr>, kmer = 0, sa_checked = False,
       path_type_counts = [2, 1], prob_sums = [0, - 1, - 3, - 4] \<rparr>"
  by (simp add: ex_path3_def ex_exts_def ex_source_def empty_path_def make_source_def make_child_def
      ex_st_eq memcpy_list_def NUM_TYPES_def Let_def)

subsection \<open>The read lifecycle\<close>

text \<open>
  C7.  Whatever the reset flag was before, after \<^verbatim>\<open>end_read(n)\<close> it is raised
  exactly when \<open>n\<close> is the number of the current read; the call returns the
  flag and changes nothing else.
\<close>

theorem end_read_reset:
  "reset (snd (end_read (m\<lparr> reset := b \<rparr>) n)) = (n = number (read m)) \<and>
   fst (end_read (m\<lparr> reset := b \<rparr>) n) = (n = number (read m)) \<and>
   snd (end_read (m\<lparr> reset := b \<rparr>) n) = m\<lparr> reset := (n = number (read m)) \<rparr>"
  by (simp add: end_read_def eq_commute)




subsection \<open>Chunk processing\<close>

lemma process_sample_prev_size:
  "prev_size m = 0 \<Longrightarrow> prev_size (fst (process_sample e m n s)) = 0"
  by (auto simp: process_sample_def skip_events_def Let_def split: prod.splits bool.splits)

lemma process_samples_prev_size:
  "prev_size m = 0 \<Longrightarrow> prev_size (fst (process_samples e ss m n)) = 0"
proof (induction ss arbitrary: m n)
  case Nil
  then show ?case by simp
next
  case (Cons s ss)
  obtain m' n' ab where step: "process_sample e m n s = (m', n', ab)"
    by (cases "process_sample e m n s") auto
  with Cons.prems process_sample_prev_size [of m e n s] have "prev_size m' = 0" by simp
  with Cons.IH [of m' n'] step show ?case by (cases ab) simp_all
qed

lemma process_samples_append:
  "process_samples e (pre @ ss) m n =
     (case process_samples e pre m n of
        (m', n', True) \<Rightarrow> (m', n', True)
      | (m', n', False) \<Rightarrow> process_samples e ss m' n')"
  by (induction pre arbitrary: m n) (auto split: prod.splits bool.splits)

lemma process_sample_skip:
  assumes "det_add_sample e (event_detector m) s = (True, d)"
    and "norm_add_event e (normalizer m) (det_get_mean e d) = (False, n1)"
    and "norm_skip_unread e n1 nevents = (nskip, n2)"
  shows "event_i (fst (process_sample e m nevents s)) = event_i m + nskip \<and>
         prev_size (fst (process_sample e m nevents s)) = 0"
  using assms
  by (auto simp: process_sample_def skip_events_def Let_def split: prod.splits bool.splits)

lemma process_chunk_prev_size:
  "prev_size (fst (process_chunk e m)) =
     (if chunk_processed (read m) \<or> reset m then prev_size m
      else prev_size (fst (process_samples e (chunk (read m)) m 0)))"
  by (auto simp: process_chunk_def split: prod.splits bool.splits)

text \<open>
  C10.  When, during \<^verbatim>\<open>process_chunk\<close>, the detector emits an event that the
  normaliser refuses, the mapper drains the normaliser and calls
  \<^verbatim>\<open>skip_events(nskip)\<close>: the event counter advances by \<open>nskip\<close> and
  \<^verbatim>\<open>prev_size_\<close> becomes 0.  It is still 0 when \<^verbatim>\<open>process_chunk\<close> returns, so
  the path-extension loop of the next \<^verbatim>\<open>add_event\<close> visits no previous path
  and writes no child.
\<close>

theorem skip_events_discards_beam:
  assumes "chunk (read m) = pre @ s # post" and "\<not> chunk_processed (read m)" and "\<not> reset m"
    and "process_samples e pre m 0 = (m1, k, False)"
    and "det_add_sample e (event_detector m1) s = (True, d)"
    and "norm_add_event e (normalizer m1) (det_get_mean e d) = (False, n1)"
    and "norm_skip_unread e n1 k = (nskip, n2)"
  shows "skip_events m1 nskip = m1\<lparr> event_i := event_i m1 + nskip, prev_size := 0 \<rparr> \<and>
         event_i (fst (process_sample e m1 k s)) = event_i m1 + nskip \<and>
         prev_size (fst (process_sample e m1 k s)) = 0 \<and>
         prev_size (fst (process_chunk e m)) = 0 \<and>
         extend_prev e st [0 ..< prev_size (fst (process_chunk e m))] m' 0 = Some (m', 0)"
proof -
  have step: "event_i (fst (process_sample e m1 k s)) = event_i m1 + nskip \<and>
              prev_size (fst (process_sample e m1 k s)) = 0"
    using assms(5-7) by (rule process_sample_skip)
  obtain m2 k2 ab where ps: "process_sample e m1 k s = (m2, k2, ab)"
    by (cases "process_sample e m1 k s") auto
  with step have m2: "prev_size m2 = 0" by simp
  have "prev_size (fst (process_samples e (s # post) m1 k)) = 0"
    using ps m2 process_samples_prev_size [of m2 e post k2] by (cases ab) simp_all
  then have "prev_size (fst (process_samples e (chunk (read m)) m 0)) = 0"
    by (simp add: assms(1,4) process_samples_append)
  then have pc: "prev_size (fst (process_chunk e m)) = 0"
    using assms(2,3) by (simp add: process_chunk_prev_size)
  show ?thesis using step pc by (simp add: skip_events_def)
qed

theorem skip_events_discards_beam_witness:
  "prev_size ex_busy = 2 \<and>
   chunk (read ex_busy) = [1, 2] @ 3 # [] \<and>
   event_i (fst (process_sample ex_env (fst (process_samples ex_env [1, 2] ex_busy 0)) 2 3)) =
     event_i (fst (process_samples ex_env [1, 2] ex_busy 0)) + 2 \<and>
   prev_size (fst (process_chunk ex_env ex_busy)) = 0"
proof -
  let ?m1 = "fst (process_samples ex_env [1, 2] ex_busy 0)"
  have h0: "prev_size ex_busy = 2" by (simp add: ex_busy_def)
  have h1: "chunk (read ex_busy) = [1, 2] @ 3 # []" by (simp add: ex_defs)
  have h2: "\<not> chunk_processed (read ex_busy)" by (simp add: ex_defs)
  have h3: "\<not> reset ex_busy" by (simp add: ex_defs)
  have "snd (process_samples ex_env [1, 2] ex_busy 0) = (2, False)"
    by (simp add: process_sample_def ex_defs)
  then have h4: "process_samples ex_env [1, 2] ex_busy 0 = (?m1, 2, False)"
    by (metis prod.collapse)
  have h5: "det_add_sample ex_env (event_detector ?m1) 3 = (True, 3)"
    by (simp add: ex_env_def)
  have h6: "norm_add_event ex_env (normalizer ?m1) (det_get_mean ex_env 3) = (False, [1, 2])"
    by (simp add: process_sample_def ex_defs)
  have h7: "norm_skip_unread ex_env [1, 2] 2 = (2, [])" by (simp add: ex_env_def)
  from skip_events_discards_beam [OF h1 h2 h3 h4 h5 h6 h7] h0 h1 show ?thesis by simp
qed

subsection \<open>Path length\<close>

lemma make_child_path_length:
  "path_length (make_child st this p r k pr t) =
     path_length p + (if path_length p \<le> MAX_PATH_LEN st then 1 else 0)"
  by (simp add: make_child_def Let_def)

lemma make_child_length_min:
  assumes "unat (MAX_PATH_LEN st) < 255" "unat (path_length p) \<le> unat (MAX_PATH_LEN st) + 1"
  shows "unat (path_length (make_child st this p r k pr t)) =
           min (unat (path_length p) + 1) (unat (MAX_PATH_LEN st) + 1)"
proof (cases "path_length p \<le> MAX_PATH_LEN st")
  case True
  then have le: "unat (path_length p) \<le> unat (MAX_PATH_LEN st)" by (simp add: word_le_nat_alt)
  have "unat (- 1 :: u8) = 255" by (simp add: unsigned_minus_1_eq_mask mask_eq_exp_minus_1)
  with le assms(1) have "path_length p \<noteq> - 1" by auto
  then have "unat (path_length p + 1) = Suc (unat (path_length p))" by (rule unat_plus_one)
  with True le show ?thesis by (simp add: make_child_path_length)
next
  case False
  then have "unat (MAX_PATH_LEN st) < unat (path_length p)" by (simp add: word_le_nat_alt)
  with False assms(2) show ?thesis by (simp add: make_child_path_length)
qed

lemma extend_path_length:
  assumes "unat (MAX_PATH_LEN st) < 255" "unat (path_length p) \<le> unat (MAX_PATH_LEN st) + 1"
  shows "unat (path_length (extend_path st p xs)) =
           min (unat (path_length p) + length xs) (unat (MAX_PATH_LEN st) + 1)"
  using assms(2)
proof (induction xs arbitrary: p)
  case Nil
  then show ?case by simp
next
  case (Cons x xs)
  obtain this r k pr t where x: "x = (this, r, k, pr, t)" by (cases x) auto
  let ?c = "make_child st this p r k pr t"
  have len: "unat (path_length ?c) = min (unat (path_length p) + 1) (unat (MAX_PATH_LEN st) + 1)"
    using assms(1) Cons.prems by (rule make_child_length_min)
  then have "unat (path_length ?c) \<le> unat (MAX_PATH_LEN st) + 1" by simp
  from Cons.IH [OF this] len show ?case by (simp add: x)
qed

lemma make_source_path_length: "path_length (make_source this r k pr) = 1"
  by (simp add: make_source_def)

text \<open>
  C2 (amended).  \<^verbatim>\<open>make_child\<close> adds one to the parent's length as long as the
  parent's length is at most \<^verbatim>\<open>MAX_PATH_LEN\<close>, so the cap is
  \<^verbatim>\<open>MAX_PATH_LEN + 1\<close>, the value that selects the shifting branch of
  \<^verbatim>\<open>make_child\<close>: for a parent of length at most \<^verbatim>\<open>MAX_PATH_LEN + 1\<close> the
  child's length is \<open>min (P.length + 1) (MAX_PATH_LEN + 1)\<close>, and a source
  extended \<open>n\<close> times has length \<open>min (1 + n) (MAX_PATH_LEN + 1)\<close>
  (for \<^verbatim>\<open>MAX_PATH_LEN\<close> below 255, where the \<^verbatim>\<open>u8\<close> cannot wrap).
\<close>

theorem make_child_length:
  assumes "unat (MAX_PATH_LEN st) < 255"
  shows "(unat (path_length p) \<le> unat (MAX_PATH_LEN st) + 1 \<longrightarrow>
            unat (path_length (make_child st this p r k pr t)) =
              min (unat (path_length p) + 1) (unat (MAX_PATH_LEN st) + 1)) \<and>
         unat (path_length (extend_path st (make_source this0 r0 k0 pr0) xs)) =
           min (1 + length xs) (unat (MAX_PATH_LEN st) + 1)"
  using make_child_length_min [OF assms, of p this r k pr t]
    extend_path_length [OF assms, of "make_source this0 r0 k0 pr0" xs]
  by (simp add: make_source_path_length)

subsection \<open>Path length: witness and counterexample\<close>

lemma ex_path3_length: "path_length ex_path3 = 3"
  by (simp add: ex_path3_def ex_exts_def ex_source_def make_child_path_length make_source_path_length
      ex_st_eq)

text \<open>
  The path \<open>ex_path3\<close> has length 3, which is \<^verbatim>\<open>MAX_PATH_LEN\<close>; its child has
  length 4.
\<close>

theorem make_child_length_counterexample:
  "unat (path_length (make_child ex_st empty_path ex_path3 \<lparr> range_start = 3, range_end = 3 \<rparr> 1 (- 1) MATCH))
     \<noteq> min (unat (path_length ex_path3) + 1) (unat (MAX_PATH_LEN ex_st))"
  by (simp add: make_child_path_length ex_path3_length ex_st_eq)

theorem make_child_length_witness:
  "unat (MAX_PATH_LEN ex_st) < 255 \<and> unat (path_length ex_path3) \<le> unat (MAX_PATH_LEN ex_st) + 1 \<and>
   unat (path_length (make_child ex_st empty_path ex_path3 \<lparr> range_start = 3, range_end = 3 \<rparr> 1 (- 1) MATCH)) = 4 \<and>
   unat (path_length
     (extend_path ex_st (make_source empty_path \<lparr> range_start = 5, range_end = 8 \<rparr> 1 (- 1))
        [(empty_path, \<lparr> range_start = 5, range_end = 8 \<rparr>, 1, - 2, STAY),
         (empty_path, \<lparr> range_start = 2, range_end = 2 \<rparr>, 0, - 1, MATCH),
         (empty_path, \<lparr> range_start = 3, range_end = 3 \<rparr>, 1, - 1, MATCH),
         (empty_path, \<lparr> range_start = 4, range_end = 4 \<rparr>, 0, - 1, MATCH)])) = 4"
proof -
  have h: "unat (MAX_PATH_LEN ex_st) < 255" by (simp add: ex_st_eq)
  from make_child_length [OF h, of ex_path3 empty_path "\<lparr> range_start = 3, range_end = 3 \<rparr>" 1 "- 1" MATCH
      empty_path "\<lparr> range_start = 5, range_end = 8 \<rparr>" 1 "- 1"
        "[(empty_path, \<lparr> range_start = 5, range_end = 8 \<rparr>, 1, - 2, STAY),
         (empty_path, \<lparr> range_start = 2, range_end = 2 \<rparr>, 0, - 1, MATCH),
         (empty_path, \<lparr> range_start = 3, range_end = 3 \<rparr>, 1, - 1, MATCH),
         (empty_path, \<lparr> range_start = 4, range_end = 4 \<rparr>, 0, - 1, MATCH)]"]
  show ?thesis by (simp add: ex_path3_length ex_st_eq)
qed

subsection \<open>Seed verification\<close>

lemma seed_loop_foldl:
  assumes "en \<noteq> - 1"
  shows "seed_loop e s en ml evt trk =
           Some (foldl (\<lambda>t k. add_seed e t (fmi_size e - fmi_sa e (of_nat k) + 1) ml evt) trk
                   [unat s ..< Suc (unat en)])"
proof (induction "Suc (unat en) - unat s" arbitrary: s trk)
  case 0
  then have "\<not> s \<le> en" by (simp add: word_le_nat_alt)
  moreover from 0 have "[unat s ..< Suc (unat en)] = []" by simp
  ultimately show ?case by (subst seed_loop.simps) simp
next
  case (Suc d)
  then have le: "s \<le> en" by (simp add: word_le_nat_alt)
  have "s \<noteq> - 1" using assms le by (metis order_antisym max_word_max)
  then have s1: "unat (s + 1) = Suc (unat s)" by (rule unat_plus_one)
  with Suc have d: "d = Suc (unat en) - unat (s + 1)" by simp
  have upt: "[unat s ..< Suc (unat en)] = unat s # [unat (s + 1) ..< Suc (unat en)]"
    using le s1 by (simp add: word_le_nat_alt upt_conv_Cons del: upt_Suc)
  show ?case
    by (subst seed_loop.simps) (simp add: le Suc.hyps(1)[OF d] upt del: upt_Suc)
qed

lemma seed_loop_Some_end:
  assumes "seed_loop e s en ml evt trk = Some y"
  shows "en \<noteq> - 1"
proof (rule seed_loop.raw_induct [where P = "\<lambda>e s en ml evt trk y. en \<noteq> - 1", OF _ assms])
  fix f :: "('a, 'b, 'c, 'd) env \<Rightarrow> u64 \<Rightarrow> u64 \<Rightarrow> u8 \<Rightarrow> u32 \<Rightarrow> 'a \<Rightarrow> 'a option"
  fix e s en ml evt trk y
  assume ih: "\<And>e s en ml evt trk y. f e s en ml evt trk = Some y \<Longrightarrow> en \<noteq> - 1"
  assume step: "(if s \<le> en
       then f e (s + 1) en ml evt (add_seed e trk (fmi_size e - fmi_sa e s + 1) ml evt)
       else Some trk) = Some y"
  show "en \<noteq> - 1"
  proof (cases "s \<le> en")
    case True
    with step ih show ?thesis by simp
  next
    case False
    then show ?thesis by auto
  qed
qed

lemma seed_loop_diverges: "seed_loop e s (- 1) ml evt trk = None"
  using seed_loop_Some_end [of e s "- 1" ml evt trk] by (cases "seed_loop e s (- 1) ml evt trk") auto

text \<open>
  C5.  \<^verbatim>\<open>update_seeds(path, path_ended)\<close> changes nothing when the path is no
  valid seed.  Otherwise (the range not ending at the largest \<^verbatim>\<open>u64\<close>, where
  the loop counter would wrap) it returns with \<^verbatim>\<open>sa_checked\<close> set and the
  tracker given, for each suffix-array row \<open>s\<close> of the range in increasing
  order, the seed \<^verbatim>\<open>(fmi.size() - fmi.sa(s) + 1, match_len, event_i - [path_ended])\<close>.
\<close>

theorem update_seeds_spec:
  "(\<not> is_seed_valid st (opts m) p path_ended \<longrightarrow> update_seeds e st m p path_ended = Some (p, m)) \<and>
   (is_seed_valid st (opts m) p path_ended \<and> range_end (fm_range p) \<noteq> - 1 \<longrightarrow>
      update_seeds e st m p path_ended =
        Some (p\<lparr> sa_checked := True \<rparr>,
              m\<lparr> seed_tracker :=
                   foldl (\<lambda>t s. add_seed e t (fmi_size e - fmi_sa e (of_nat s) + 1) (match_len p)
                                  (event_i m - (if path_ended then 1 else 0)))
                     (seed_tracker m)
                     [unat (range_start (fm_range p)) ..< Suc (unat (range_end (fm_range p)))] \<rparr>))"
  by (simp add: update_seeds_def seed_loop_foldl del: upt_Suc)

theorem update_seeds_spec_witness:
  "\<not> is_seed_valid ex_st (opts ex_busy) empty_path False \<and>
   update_seeds ex_env ex_st ex_busy empty_path False = Some (empty_path, ex_busy) \<and>
   is_seed_valid ex_st (opts ex_busy) ex_repeat True \<and> range_end (fm_range ex_repeat) \<noteq> - 1 \<and>
   update_seeds ex_env ex_st ex_busy ex_repeat True =
     Some (ex_repeat\<lparr> sa_checked := True \<rparr>, ex_busy\<lparr> seed_tracker := [(7, 2, 1), (8, 2, 1)] \<rparr>)"
proof -
  have o: "opts ex_busy = ex_opts" by (simp add: ex_busy_def ex_read_def new_read_def ex_mapper_def)
  have h1: "\<not> is_seed_valid ex_st (opts ex_busy) empty_path False"
    by (simp add: o is_seed_valid_def empty_path_def ex_opts_def)
  have h2: "is_seed_valid ex_st (opts ex_busy) ex_repeat True"
    by (simp add: o ex_repeat_def ex_path3_eq is_seed_valid_def ex_st_eq ex_opts_def range_length_def
        match_len_def)
  have h3: "range_end (fm_range ex_repeat) \<noteq> - 1" by (simp add: ex_repeat_def)
  have t: "seed_tracker ex_busy = []" "event_i ex_busy = 2"
    by (simp_all add: ex_busy_def ex_read_def new_read_def ex_mapper_def ex_env_def)
  have r: "[unat (range_start (fm_range ex_repeat)) ..< Suc (unat (range_end (fm_range ex_repeat)))] = [6, 7]"
    by (simp add: ex_repeat_def upt_rec)
  have ml: "match_len ex_repeat = 2" by (simp add: ex_repeat_def ex_path3_eq match_len_def)
  from update_seeds_spec [of ex_st ex_busy empty_path False ex_env]
    update_seeds_spec [of ex_st ex_busy ex_repeat True ex_env] h1 h2 h3
  show ?thesis by (simp add: t r ml ex_env_def del: upt_Suc)
qed

subsection \<open>The packed event types\<close>

lemma extend_path_append:
  "extend_path st p (xs @ ys) = extend_path st (extend_path st p xs) ys"
  by (induction xs arbitrary: p) auto

lemma extend_path_snoc:
  "extend_path st p (xs @ [(this, r, k, pr, t)]) = make_child st this (extend_path st p xs) r k pr t"
  by (simp add: extend_path_append)

lemma event_types_make_child:
  "event_types (make_child st this p r k pr t) =
     (TYPE_ADDS st ! type_index t) OR drop_bit (TYPE_BITS st) (event_types p)"
  by (simp add: make_child_def Let_def)

lemma length_window [simp]: "length (window n ts) = n"
  by (simp add: window_def)

lemma window_Nil: "window n [] = replicate n MATCH"
  by (simp add: window_def)

lemma window_nth:
  "i < n \<Longrightarrow> window n ts ! i = (if length ts + i < n then MATCH else ts ! (length ts + i - n))"
  unfolding window_def by (subst nth_drop) (auto simp: nth_append)

lemma window_snoc:
  assumes "0 < n"
  shows "window n (ts @ [t]) = tl (window n ts) @ [t]"
proof (rule nth_equalityI)
  show "length (window n (ts @ [t])) = length (tl (window n ts) @ [t])"
    using assms by simp
next
  fix i
  assume "i < length (window n (ts @ [t]))"
  then have i: "i < n" by simp
  show "window n (ts @ [t]) ! i = (tl (window n ts) @ [t]) ! i"
  proof (cases "i = n - 1")
    case True
    with assms i show ?thesis by (simp add: window_nth nth_append)
  next
    case False
    with i have "Suc i < n" by simp
    with i show ?thesis by (auto simp: window_nth nth_append nth_tl Suc_diff_le)
  qed
qed

lemma type_adds_bit:
  assumes "st = init_statics tb ap" "2 \<le> unat (MAX_PATH_LEN st)"
    and "tb * (unat (MAX_PATH_LEN st) - 1) \<le> 32" "0 < tb"
  shows "bit (TYPE_ADDS st ! type_index t) n \<longleftrightarrow> (t = STAY \<and> n = tb * (unat (MAX_PATH_LEN st) - 2))"
proof -
  let ?M = "unat (MAX_PATH_LEN st)"
  obtain m where m: "?M = Suc (Suc m)"
    using assms(2) by (metis Suc_le_D numeral_2_eq_2 Suc_le_mono le0 not0_implies_Suc le_zero_eq)
  with assms(3,4) have k: "tb * (?M - 2) < 32" by simp
  have M: "MAX_PATH_LEN st = of_nat (seed_len ap)" using assms(1) by (simp add: init_statics_def Let_def)
  have adds: "TYPE_ADDS st =
      [ucast (push_bit ((?M - 2) * tb) (0 :: u64)), ucast (push_bit ((?M - 2) * tb) (1 :: u64))]"
    using assms(1) by (simp add: init_statics_def Let_def NUM_TYPES_def upt2)
  show ?thesis
  proof (cases t)
    case MATCH
    then show ?thesis by (simp add: adds)
  next
    case STAY
    then show ?thesis using k
      by (auto simp: adds bit_simps mult.commute)
  qed
qed


lemma make_child_bit:
  assumes "st = init_statics tb ap" "2 \<le> unat (MAX_PATH_LEN st)"
    and "tb * (unat (MAX_PATH_LEN st) - 1) \<le> 32" "0 < tb"
  shows "bit (event_types (make_child st this p r k pr t)) n \<longleftrightarrow>
           (t = STAY \<and> n = tb * (unat (MAX_PATH_LEN st) - 2)) \<or> bit (event_types p) (n + tb)"
proof -
  have tb: "TYPE_BITS st = tb" using assms(1) by (simp add: init_statics_def Let_def)
  show ?thesis
    by (simp add: event_types_make_child bit_or_iff bit_drop_bit_eq tb type_adds_bit [OF assms]
        add.commute)
qed

lemma shift_index:
  assumes "0 < (tb :: nat)"
  shows "(\<exists>j < Suc m. n + tb = tb * j \<and> P j) \<longleftrightarrow> (\<exists>j < m. n = tb * j \<and> P (Suc j))"
proof
  assume "\<exists>j < Suc m. n + tb = tb * j \<and> P j"
  then obtain j where j: "j < Suc m" "n + tb = tb * j" "P j" by blast
  with assms obtain j' where j': "j = Suc j'" by (cases j) auto
  with j show "\<exists>j < m. n = tb * j \<and> P (Suc j)"
    by (intro exI [of _ j']) simp
next
  assume "\<exists>j < m. n = tb * j \<and> P (Suc j)"
  then obtain j where "j < m" "n = tb * j" "P (Suc j)" by blast
  then show "\<exists>j < Suc m. n + tb = tb * j \<and> P j"
    by (intro exI [of _ "Suc j"]) simp
qed


lemma snoc_window_index:
  assumes "length w = Suc m"
  shows "(\<exists>j < Suc m. n = tb * j \<and> (tl w @ [t]) ! j = STAY) \<longleftrightarrow>
           (t = STAY \<and> n = tb * m) \<or> (\<exists>j < m. n = tb * j \<and> w ! Suc j = STAY)"
proof -
  have len: "length (tl w) = m" using assms by simp
  have a: "\<And>j. j < m \<Longrightarrow> (tl w @ [t]) ! j = w ! Suc j"
    using len assms by (simp add: nth_append nth_tl)
  have b: "(tl w @ [t]) ! m = t"
    using len by (simp add: nth_append)
  show ?thesis
  proof
    assume "\<exists>j < Suc m. n = tb * j \<and> (tl w @ [t]) ! j = STAY"
    then obtain j where j: "j < Suc m" "n = tb * j" "(tl w @ [t]) ! j = STAY" by blast
    show "(t = STAY \<and> n = tb * m) \<or> (\<exists>j < m. n = tb * j \<and> w ! Suc j = STAY)"
    proof (cases "j = m")
      case True
      with j b show ?thesis by simp
    next
      case False
      with j have "j < m" by simp
      with j a [of j] show ?thesis by auto
    qed
  next
    assume "(t = STAY \<and> n = tb * m) \<or> (\<exists>j < m. n = tb * j \<and> w ! Suc j = STAY)"
    then show "\<exists>j < Suc m. n = tb * j \<and> (tl w @ [t]) ! j = STAY"
    proof
      assume "t = STAY \<and> n = tb * m"
      with b show ?thesis by (intro exI [of _ m]) simp
    next
      assume "\<exists>j < m. n = tb * j \<and> w ! Suc j = STAY"
      then obtain j where "j < m" "n = tb * j" "w ! Suc j = STAY" by blast
      with a [of j] show ?thesis by (intro exI [of _ j]) simp
    qed
  qed
qed

lemma event_types_window:
  assumes "st = init_statics tb ap" "2 \<le> unat (MAX_PATH_LEN st)"
    and "tb * (unat (MAX_PATH_LEN st) - 1) \<le> 32" "0 < tb"
  shows "bit (event_types (extend_path st (make_source this r k pr) xs)) n \<longleftrightarrow>
           (\<exists>j < unat (MAX_PATH_LEN st) - 1.
              n = tb * j \<and> window (unat (MAX_PATH_LEN st) - 1) (map ext_type xs) ! j = STAY)"
proof (induction xs arbitrary: n rule: rev_induct)
  case Nil
  show ?case by (simp add: make_source_def window_Nil)
next
  case (snoc x xs)
  let ?M = "unat (MAX_PATH_LEN st)"
  let ?p = "extend_path st (make_source this r k pr) xs"
  let ?w = "window (?M - 1) (map ext_type xs)"
  obtain this' r' k' pr' t where x: "x = (this', r', k', pr', t)" by (cases x) auto
  obtain m where m: "?M = Suc (Suc m)"
    using assms(2) by (metis Suc_le_D numeral_2_eq_2 Suc_le_mono le0 not0_implies_Suc le_zero_eq)
  have w': "window (?M - 1) (map ext_type (xs @ [x])) = tl ?w @ [t]"
    using window_snoc [of "?M - 1"] m by (simp add: x ext_type_def)
  have lw: "length ?w = Suc m" by (simp add: m)
  have "bit (event_types (extend_path st (make_source this r k pr) (xs @ [x]))) n \<longleftrightarrow>
          (t = STAY \<and> n = tb * m) \<or> bit (event_types ?p) (n + tb)"
    using make_child_bit [OF assms, of this' ?p r' k' pr' t n] by (simp add: x extend_path_snoc m)
  also have "bit (event_types ?p) (n + tb) \<longleftrightarrow> (\<exists>j < Suc m. n + tb = tb * j \<and> ?w ! j = STAY)"
    using snoc.IH [of "n + tb"] by (simp add: m)
  also have "\<dots> \<longleftrightarrow> (\<exists>j < m. n = tb * j \<and> ?w ! Suc j = STAY)"
    using assms(4) by (rule shift_index)
  finally have "bit (event_types (extend_path st (make_source this r k pr) (xs @ [x]))) n \<longleftrightarrow>
      (\<exists>j < Suc m. n = tb * j \<and> (tl ?w @ [t]) ! j = STAY)"
    by (simp only: snoc_window_index [OF lw])
  then show ?case using w' by (simp add: m)
qed


lemma type_mask_bit: "bit (2 ^ tb - 1 :: nat) n \<longleftrightarrow> n < tb"
proof -
  have "(2 ^ tb - 1 :: nat) = mask tb" by (simp add: mask_eq_exp_minus_1)
  then show ?thesis by (simp add: bit_mask_iff)
qed

lemma type_index_bit:
  "bit (of_nat (type_index t) :: u8) n \<longleftrightarrow> t = STAY \<and> n = 0"
  by (cases t) (simp_all add: bit_1_iff)

lemma unique_field:
  assumes "0 < (tb :: nat)" "n < tb" "j < m"
  shows "(\<exists>j' < m. tb * j + n = tb * j' \<and> P j') \<longleftrightarrow> n = 0 \<and> P j"
proof
  assume "\<exists>j' < m. tb * j + n = tb * j' \<and> P j'"
  then obtain j' where j': "j' < m" "tb * j + n = tb * j'" "P j'" by blast
  from j'(2) have "(tb * j + n) mod tb = (tb * j') mod tb" by simp
  with assms(2) have n: "n = 0" by simp
  with j'(2) assms(1) have "j = j'" by simp
  with n j' show "n = 0 \<and> P j" by simp
next
  assume "n = 0 \<and> P j"
  with assms(3) show "\<exists>j' < m. tb * j + n = tb * j' \<and> P j'" by (intro exI [of _ j]) simp
qed

lemma type_field_window:
  assumes "st = init_statics tb ap" "2 \<le> unat (MAX_PATH_LEN st)"
    and "tb * (unat (MAX_PATH_LEN st) - 1) \<le> 32" "0 < tb"
    and "j < unat (MAX_PATH_LEN st) - 1"
  shows "type_field st (extend_path st (make_source this r k pr) xs) j =
           of_nat (type_index (window (unat (MAX_PATH_LEN st) - 1) (map ext_type xs) ! j))"
proof (rule bit_word_eqI)
  fix n
  assume "n < LENGTH(8)"
  then have n8: "n < 8" by simp
  let ?p = "extend_path st (make_source this r k pr) xs"
  let ?w = "window (unat (MAX_PATH_LEN st) - 1) (map ext_type xs)"
  have tb: "TYPE_BITS st = tb" and mask: "TYPE_MASK st = of_nat (2 ^ tb - 1)"
    using assms(1) by (simp_all add: init_statics_def Let_def)
  have "bit (type_field st ?p j) n \<longleftrightarrow> bit (event_types ?p) (tb * j + n) \<and> n < tb"
    using n8 by (auto simp: type_field_def tb mask bit_simps simp flip: mask_eq_exp_minus_1)
  also have "\<dots> \<longleftrightarrow> (\<exists>j' < unat (MAX_PATH_LEN st) - 1. tb * j + n = tb * j' \<and> ?w ! j' = STAY) \<and> n < tb"
    by (simp only: event_types_window [OF assms(1-4)])
  also have "\<dots> \<longleftrightarrow> (n = 0 \<and> ?w ! j = STAY)"
    using unique_field [OF assms(4) _ assms(5), of n "\<lambda>j. ?w ! j = STAY"] assms(4) by auto
  finally show "bit (type_field st ?p j) n \<longleftrightarrow> bit (of_nat (type_index (?w ! j)) :: u8) n"
    by (auto simp: type_index_bit)
qed


lemma type_head_field: "type_head st p = type_field st p (unat (MAX_PATH_LEN st) - 2)"
  by (simp add: type_head_def type_field_def)

lemma type_tail_field: "type_tail st p = type_field st p 0"
  by (simp add: type_tail_def type_field_def)

lemma window_recent:
  assumes "j < length ts" "j < n"
  shows "window n ts ! (n - 1 - j) = rev ts ! j"
proof -
  have "n - 1 - j < n" using assms(2) by simp
  moreover have "\<not> length ts + (n - 1 - j) < n" using assms by simp
  moreover have "length ts + (n - 1 - j) - n = length ts - Suc j" using assms by simp
  ultimately show ?thesis using assms(1) by (simp add: window_nth rev_nth)
qed

lemma window_oldest:
  assumes "0 < n" "n \<le> length ts"
  shows "window n ts ! 0 = oldest_retained n ts"
proof -
  have "length ts - n < length ts" using assms by simp
  then have "hd (drop (length ts - n) ts) = ts ! (length ts - n)" by (rule hd_drop_conv_nth)
  with assms show ?thesis by (simp add: window_nth oldest_retained_def)
qed

lemma type_head_last:
  assumes "st = init_statics tb ap" "2 \<le> unat (MAX_PATH_LEN st)"
    and "tb * (unat (MAX_PATH_LEN st) - 1) \<le> 32" "0 < tb"
  shows "type_head st (extend_path st (make_source this r k pr) xs) =
           of_nat (type_index (if xs = [] then MATCH else ext_type (last xs)))"
proof -
  let ?n = "unat (MAX_PATH_LEN st) - 1"
  have j: "unat (MAX_PATH_LEN st) - 2 < ?n" using assms(2) by simp
  have n2: "unat (MAX_PATH_LEN st) - 2 = ?n - 1 - 0" by simp
  have "window ?n (map ext_type xs) ! (unat (MAX_PATH_LEN st) - 2) =
          (if xs = [] then MATCH else ext_type (last xs))"
  proof (cases "xs = []")
    case True
    with j show ?thesis by (simp add: window_Nil)
  next
    case False
    then have "0 < length (map ext_type xs)" by simp
    moreover have "0 < ?n" using assms(2) by simp
    ultimately have "window ?n (map ext_type xs) ! (?n - 1 - 0) = rev (map ext_type xs) ! 0"
      by (rule window_recent)
    moreover have "rev (map ext_type xs) ! 0 = ext_type (last xs)"
      using False by (simp add: last_map hd_rev flip: hd_conv_nth)
    ultimately show ?thesis using False by (simp add: numeral_2_eq_2)
  qed
  with type_field_window [OF assms j, of this r k pr xs] show ?thesis
    by (simp add: type_head_field)
qed


text \<open>
  C3 (amended).  For a source extended by the events \<open>xs\<close> (layout constants
  from the constructor, at least two fields' worth of path length, the window
  fitting the 32 bits): the type of the \<open>j\<close>-th most recent event sits in
  field \<open>MAX_PATH_LEN - 2 - j\<close>, so each extension enters at the
  most-significant field and moves the older types one field down;
  \<^verbatim>\<open>type_head\<close> returns the most recent event type, and once the window is
  full \<^verbatim>\<open>type_tail\<close> returns the oldest retained one.
\<close>

theorem event_types_layout:
  assumes "st = init_statics tb ap" "2 \<le> unat (MAX_PATH_LEN st)"
    and "tb * (unat (MAX_PATH_LEN st) - 1) \<le> 32" "0 < tb"
  shows "(\<forall>j. j < length xs \<and> j < unat (MAX_PATH_LEN st) - 1 \<longrightarrow>
            type_field st (extend_path st (make_source this r k pr) xs)
                (unat (MAX_PATH_LEN st) - 2 - j) =
              of_nat (type_index (rev (map ext_type xs) ! j))) \<and>
         (xs \<noteq> [] \<longrightarrow>
            type_head st (extend_path st (make_source this r k pr) xs) =
              of_nat (type_index (ext_type (last xs)))) \<and>
         (unat (MAX_PATH_LEN st) - 1 \<le> length xs \<longrightarrow>
            type_tail st (extend_path st (make_source this r k pr) xs) =
              of_nat (type_index (oldest_retained (unat (MAX_PATH_LEN st) - 1) (map ext_type xs))))"
proof (intro conjI allI impI)
  let ?n = "unat (MAX_PATH_LEN st) - 1"
  let ?p = "extend_path st (make_source this r k pr) xs"
  have n: "0 < ?n" using assms(2) by simp
  {
    fix j
    assume j: "j < length xs \<and> j < ?n"
    then have "?n - 1 - j < ?n" using assms(2) by arith
    from type_field_window [OF assms this, of this r k pr xs] window_recent [of j "map ext_type xs" ?n] j
    show "type_field st ?p (unat (MAX_PATH_LEN st) - 2 - j) =
            of_nat (type_index (rev (map ext_type xs) ! j))"
      by (simp add: numeral_2_eq_2)
  }
  {
    assume "xs \<noteq> []"
    with type_head_last [OF assms, of this r k pr xs]
    show "type_head st ?p = of_nat (type_index (ext_type (last xs)))" by simp
  }
  {
    assume "?n \<le> length xs"
    with type_field_window [OF assms n, of this r k pr xs] window_oldest [OF n, of "map ext_type xs"]
    show "type_tail st ?p = of_nat (type_index (oldest_retained ?n (map ext_type xs)))"
      by (simp add: type_tail_field)
  }
qed

lemma ex_exts_types: "map ext_type ex_exts = [STAY, MATCH]"
  by (simp add: ex_exts_def ext_type_def)

lemma ex_layout:
  "ex_st = init_statics 2 ex_opts" "2 \<le> unat (MAX_PATH_LEN ex_st)"
  "2 * (unat (MAX_PATH_LEN ex_st) - 1) \<le> 32" "0 < (2 :: nat)"
  by (simp_all add: ex_st_def [symmetric] ex_st_eq)

lemma ex_max_path_len: "unat (MAX_PATH_LEN ex_st) = 3"
  by (simp add: ex_st_eq)

theorem event_types_layout_witness:
  "ex_st = init_statics 2 ex_opts \<and> 2 \<le> unat (MAX_PATH_LEN ex_st) \<and>
   2 * (unat (MAX_PATH_LEN ex_st) - 1) \<le> 32 \<and>
   ex_exts \<noteq> [] \<and> unat (MAX_PATH_LEN ex_st) - 1 \<le> length ex_exts \<and>
   type_field ex_st ex_path3 1 = 0 \<and> type_field ex_st ex_path3 0 = 1 \<and>
   type_head ex_st ex_path3 = of_nat (type_index MATCH) \<and>
   type_tail ex_st ex_path3 = of_nat (type_index STAY)"
proof -
  have ne: "ex_exts \<noteq> []" and len: "length ex_exts = 2" by (simp_all add: ex_exts_def)
  have full: "unat (MAX_PATH_LEN ex_st) - 1 \<le> length ex_exts" by (simp add: ex_max_path_len len)
  note inst = event_types_layout [OF ex_layout, of ex_exts empty_path
      "\<lparr> range_start = 5, range_end = 8 \<rparr>" 1 "- 1", folded ex_source_def ex_path3_def]
  from inst have a: "\<And>j. j < length ex_exts \<and> j < unat (MAX_PATH_LEN ex_st) - 1 \<Longrightarrow>
            type_field ex_st ex_path3 (unat (MAX_PATH_LEN ex_st) - 2 - j) =
              of_nat (type_index (rev (map ext_type ex_exts) ! j))"
    by blast
  from inst ne have b: "type_head ex_st ex_path3 = of_nat (type_index (ext_type (last ex_exts)))"
    by blast
  from inst full have c: "type_tail ex_st ex_path3 =
      of_nat (type_index (oldest_retained (unat (MAX_PATH_LEN ex_st) - 1) (map ext_type ex_exts)))"
    by blast
  have f1: "type_field ex_st ex_path3 1 = 0"
    using a [of 0] by (simp add: ex_max_path_len len ex_exts_types)
  have f0: "type_field ex_st ex_path3 0 = 1"
    using a [of 1] by (simp add: ex_max_path_len len ex_exts_types)
  have hd: "type_head ex_st ex_path3 = of_nat (type_index MATCH)"
    using b by (simp add: ex_exts_def ext_type_def)
  have tl: "type_tail ex_st ex_path3 = of_nat (type_index STAY)"
    using c by (simp add: ex_max_path_len ex_exts_types oldest_retained_def)
  from ex_layout(1-3) ne full f1 f0 hd tl show ?thesis by blast
qed

text \<open>
  The path \<open>ex_path3\<close> is a source extended by a STAY and then a MATCH, in a
  window of two fields.  The claim puts the most recent type (MATCH) in the
  least-significant field and has \<^verbatim>\<open>type_head\<close> return the oldest retained
  type (STAY); the code does the opposite.
\<close>

theorem event_types_layout_counterexample:
  "ex_path3 = extend_path ex_st ex_source ex_exts \<and>
   map ext_type ex_exts = [STAY, MATCH] \<and>
   type_tail ex_st ex_path3 \<noteq> of_nat (type_index (last (map ext_type ex_exts))) \<and>
   type_head ex_st ex_path3 \<noteq>
     of_nat (type_index (oldest_retained (unat (MAX_PATH_LEN ex_st) - 1) (map ext_type ex_exts)))"
proof -
  have t: "type_tail ex_st ex_path3 = 1" and h: "type_head ex_st ex_path3 = 0"
    by (simp_all add: ex_path3_eq ex_st_eq type_head_def type_tail_def)
  have "type_tail ex_st ex_path3 \<noteq> of_nat (type_index (last (map ext_type ex_exts)))"
    by (simp add: t ex_exts_types)
  moreover have "type_head ex_st ex_path3 \<noteq>
     of_nat (type_index (oldest_retained (unat (MAX_PATH_LEN ex_st) - 1) (map ext_type ex_exts)))"
    by (simp add: h ex_exts_types ex_max_path_len oldest_retained_def)
  ultimately show ?thesis using ex_path3_def ex_exts_types by blast
qed


subsection \<open>Seed validity\<close>






subsection \<open>What the event step leaves alone\<close>

lemma ctl_put_next [simp]: "ctl (put_next m i p) = ctl m"
  by (simp add: ctl_def put_next_def)

lemma ctl_add_stay: "add_stay st pp th m np = (m', np', f) \<Longrightarrow> ctl m' = ctl m"
  by (auto simp: add_stay_def Let_def split: if_splits)

lemma ctl_add_neighbors: "add_neighbors e st pp th bs m np f = (m', np', f') \<Longrightarrow> ctl m' = ctl m"
proof (induction bs arbitrary: m np f)
  case Nil
  then show ?case by simp
next
  case (Cons b bs)
  then show ?case
    by (fastforce simp: Let_def ctl_def put_next_def split: if_splits)
qed

lemma ctl_update_seeds: "update_seeds e st m p pe = Some (p', m') \<Longrightarrow> ctl m' = ctl m"
  by (auto simp: update_seeds_def ctl_def split: if_splits option.splits)

lemma ctl_extend_prev: "extend_prev e st is m np = Some (m', np') \<Longrightarrow> ctl m' = ctl m"
proof (induction "is" arbitrary: m np)
  case Nil
  then show ?case by simp
next
  case (Cons i "is")
  let ?pp = "prev_paths m ! i"
  show ?case
  proof (cases "is_valid ?pp")
    case False
    with Cons show ?thesis by simp
  next
    case True
    let ?th = "get_prob_thresh (opts m) (range_length (fm_range ?pp))"
    obtain m1 np1 f1 where s: "add_stay st ?pp ?th m np = (m1, np1, f1)"
      by (cases "add_stay st ?pp ?th m np") auto
    have c1: "ctl m1 = ctl m" using s by (rule ctl_add_stay)
    show ?thesis
    proof (cases "f1 \<and> np1 = length (next_paths m1)")
      case True
      with Cons.prems \<open>is_valid ?pp\<close> s c1 show ?thesis by (simp add: Let_def)
    next
      case nf: False
      obtain m2 np2 f2 where n: "add_neighbors e st ?pp ?th [0 ..< ALPH_SIZE e] m1 np1 f1 = (m2, np2, f2)"
        by (cases "add_neighbors e st ?pp ?th [0 ..< ALPH_SIZE e] m1 np1 f1") auto
      have c2: "ctl m2 = ctl m1" using n by (rule ctl_add_neighbors)
      obtain p' m3 where u: "(if \<not> f2 \<and> \<not> sa_checked ?pp then update_seeds e st m2 ?pp True
                               else Some (?pp, m2)) = Some (p', m3)"
        using Cons.prems \<open>is_valid ?pp\<close> s nf n
        by (auto simp: Let_def split: option.splits if_splits)
      have c3: "ctl m3 = ctl m2" using u by (auto split: if_splits dest: ctl_update_seeds)
      let ?m4 = "m3\<lparr> prev_paths := (prev_paths m3)[i := p'] \<rparr>"
      have c4: "ctl ?m4 = ctl m" using c1 c2 c3 by (simp add: ctl_def)
      show ?thesis
      proof (cases "np2 = length (next_paths ?m4)")
        case True
        with Cons.prems \<open>is_valid ?pp\<close> s nf n u c4 show ?thesis
          by (auto simp: Let_def split: if_splits)
      next
        case False
        with Cons.prems \<open>is_valid ?pp\<close> s nf n u
        have "extend_prev e st is ?m4 np2 = Some (m', np')"
          by (auto simp: Let_def split: if_splits)
        from Cons.IH [OF this] c4 show ?thesis by simp
      qed
    qed
  qed
qed


lemma ctl_put_source: "put_source m np r k = (m', np') \<Longrightarrow> ctl m' = ctl m"
  by (auto simp: put_source_def split: if_splits)

lemma ctl_source_before: "source_before m np i k pk u = (m', np', u') \<Longrightarrow> ctl m' = ctl m"
  by (auto simp: source_before_def Let_def ctl_def put_source_def put_next_def
      split: if_splits prod.splits)

lemma ctl_source_after: "source_after m np n i k u = (m', np', u') \<Longrightarrow> ctl m' = ctl m"
  by (auto simp: source_after_def Let_def ctl_def put_source_def put_next_def
      split: if_splits prod.splits)

lemma ctl_dedup_loop:
  "dedup_loop e st n is m np pk u = Some (m', np') \<Longrightarrow> ctl m' = ctl m"
proof (induction "is" arbitrary: m np pk u)
  case Nil
  then show ?case by simp
next
  case (Cons i "is")
  let ?k = "kmer (next_paths m ! i)"
  obtain m1 np1 u1 where b: "source_before m np i ?k pk u = (m1, np1, u1)"
    by (cases "source_before m np i ?k pk u") auto
  have c1: "ctl m1 = ctl m" using b by (rule ctl_source_before)
  show ?case
  proof (cases "i < n - 1 \<and> range_eq (fm_range (next_paths m1 ! i)) (fm_range (next_paths m1 ! (i + 1)))")
    case True
    with Cons.prems b
    have "dedup_loop e st n is (put_next m1 i (invalidate (next_paths m1 ! i))) np1 ?k u1 = Some (m', np')"
      by (simp add: Let_def)
    from Cons.IH [OF this] c1 show ?thesis by simp
  next
    case False
    obtain m2 np2 u2 where a: "source_after m1 np1 n i ?k u1 = (m2, np2, u2)"
      by (cases "source_after m1 np1 n i ?k u1") auto
    have c2: "ctl m2 = ctl m1" using a by (rule ctl_source_after)
    obtain p' m3 where u: "update_seeds e st m2 (next_paths m2 ! i) False = Some (p', m3)"
      using Cons.prems b False a by (auto simp: Let_def split: option.splits)
    have c3: "ctl m3 = ctl m2" using u by (rule ctl_update_seeds)
    from Cons.prems b False a u
    have "dedup_loop e st n is (put_next m3 i p') np2 ?k u2 = Some (m', np')"
      by (auto simp: Let_def)
    from Cons.IH [OF this] c1 c2 c3 show ?thesis by simp
  qed
qed

lemma ctl_sort_dedup:
  assumes "sort_dedup e st m np = Some (m', np')"
  shows "ctl m' = ctl m"
proof (cases "np = 0")
  case True
  with assms show ?thesis by (simp add: sort_dedup_def)
next
  case False
  let ?m1 = "m\<lparr> next_paths := pdqsort e (take np (next_paths m)) @ drop np (next_paths m) \<rparr>"
  from assms False
  have "dedup_loop e st np [0 ..< np] ?m1 np (of_nat (kmer_count e)) (range_default e) = Some (m', np')"
    by (simp add: sort_dedup_def Let_def)
  then have "ctl m' = ctl ?m1" by (rule ctl_dedup_loop)
  then show ?thesis by (simp add: ctl_def)
qed

lemma ctl_add_sources: "add_sources ks m np = (m', np') \<Longrightarrow> ctl m' = ctl m"
proof (induction ks arbitrary: m np)
  case Nil
  then show ?case by simp
next
  case (Cons k ks)
  then show ?case
    by (fastforce simp: Let_def ctl_def put_next_def split: if_splits)
qed


lemma add_event_guard:
  "reset m \<or> max_events_proc (opts m) \<le> unat (event_i m) \<Longrightarrow>
     add_event e st m ev = Some (True, m\<lparr> reset := False, state := FAILURE \<rparr>)"
  by (auto simp: add_event_def)

lemma add_event_step:
  assumes "add_event e st m ev = Some (t, m')"
    and "\<not> reset m" "unat (event_i m) < max_events_proc (opts m)"
  shows "event_i m' = event_i m + 1 \<and> reset m' = reset m \<and> opts m' = opts m \<and>
         state m' = (if t then SUCCESS else state m)"
proof -
  let ?m1 = "m\<lparr> kmer_probs := map (\<lambda>k. event_match_prob e ev (of_nat k)) [0 ..< kmer_count e] \<rparr>"
  from assms obtain m2 np2 where b: "extend_prev e st [0 ..< prev_size ?m1] ?m1 0 = Some (m2, np2)"
    by (auto simp: add_event_def Let_def split: if_splits option.splits)
  from assms b obtain m3 np3 where c: "sort_dedup e st m2 np2 = Some (m3, np3)"
    by (auto simp: add_event_def Let_def split: if_splits option.splits)
  obtain m4 np4 where d: "add_sources [0 ..< kmer_count e] m3 np3 = (m4, np4)"
    by (cases "add_sources [0 ..< kmer_count e] m3 np3") auto
  have "ctl m4 = ctl ?m1"
    using ctl_extend_prev [OF b] ctl_sort_dedup [OF c] ctl_add_sources [OF d] by simp
  then have c4: "event_i m4 = event_i m" "reset m4 = reset m" "opts m4 = opts m" "state m4 = state m"
    by (simp_all add: ctl_def)
  let ?m5 = "m4\<lparr> prev_size := np4, prev_paths := next_paths m4, next_paths := prev_paths m4,
                  event_i := event_i m4 + 1 \<rparr>"
  from assms b c d have "(t, m') = (if get_final_valid e (seed_tracker ?m5)
                                   then (True, ?m5\<lparr> state := SUCCESS \<rparr>) else (False, ?m5))"
    by (auto simp: add_event_def Let_def split: if_splits)
  then show ?thesis using c4 by (auto split: if_splits)
qed

lemma add_events_no_hit:
  "add_events e st m evs = Some (False, m') \<Longrightarrow>
     event_i m' = event_i m + of_nat (length evs) \<and> reset m' = reset m \<and> opts m' = opts m \<and>
     state m' = state m"
proof (induction evs arbitrary: m)
  case Nil
  then show ?case by simp
next
  case (Cons ev evs)
  from Cons.prems obtain m1 where s: "add_event e st m ev = Some (False, m1)"
    and r: "add_events e st m1 evs = Some (False, m')"
    by (auto split: option.splits bool.splits)
  have ng: "\<not> reset m" "unat (event_i m) < max_events_proc (opts m)"
    using s add_event_guard [of m e st ev] by (auto simp: not_le [symmetric])
  from add_event_step [OF s ng] Cons.IH [OF r] show ?case by (simp add: algebra_simps)
qed

text \<open>
  C6 (amended).  When the reset flag is raised or \<^verbatim>\<open>event_i\<close> has reached
  \<^verbatim>\<open>max_events_proc\<close>, \<^verbatim>\<open>add_event\<close> returns true at once with the state
  FAILURE (and the flag cleared), the beams and everything else untouched.
  The guard is tested on entry only: when \<^verbatim>\<open>max_events_proc\<close> events (fewer
  than \<open>2^32\<close>, \<^verbatim>\<open>event_i\<close> being a \<^verbatim>\<open>u32\<close>) of a read that starts at
  \<^verbatim>\<open>event_i = 0\<close> have gone through, each call returning false, the state is
  still the one the read started with, \<^verbatim>\<open>event_i\<close> equals
  \<^verbatim>\<open>max_events_proc\<close>, and it is the \<^verbatim>\<open>add_event\<close> that follows which returns
  true with the state FAILURE.
\<close>

theorem add_event_limit:
  "(reset m \<or> max_events_proc (opts m) \<le> unat (event_i m) \<longrightarrow>
      add_event e st m ev = Some (True, m\<lparr> reset := False, state := FAILURE \<rparr>)) \<and>
   (event_i m = 0 \<and> length evs = max_events_proc (opts m) \<and> max_events_proc (opts m) < 2 ^ 32 \<and>
    add_events e st m evs = Some (False, m') \<longrightarrow>
      state m' = state m \<and> unat (event_i m') = max_events_proc (opts m) \<and>
      add_event e st m' ev = Some (True, m'\<lparr> reset := False, state := FAILURE \<rparr>))"
proof (intro conjI impI)
  assume "reset m \<or> max_events_proc (opts m) \<le> unat (event_i m)"
  then show "add_event e st m ev = Some (True, m\<lparr> reset := False, state := FAILURE \<rparr>)"
    by (rule add_event_guard)
next
  assume a: "event_i m = 0 \<and> length evs = max_events_proc (opts m) \<and>
             max_events_proc (opts m) < 2 ^ 32 \<and> add_events e st m evs = Some (False, m')"
  then have f: "event_i m' = of_nat (max_events_proc (opts m))" "opts m' = opts m" "state m' = state m"
    using add_events_no_hit [of e st m evs m'] by simp_all
  have u: "unat (of_nat (max_events_proc (opts m)) :: u32) = max_events_proc (opts m)"
    using a by (simp add: unat_of_nat take_bit_nat_eq_self)
  show "state m' = state m" by (rule f(3))
  show "unat (event_i m') = max_events_proc (opts m)" using f(1) u by simp
  have "max_events_proc (opts m') \<le> unat (event_i m')" using f(1,2) u by simp
  then show "add_event e st m' ev = Some (True, m'\<lparr> reset := False, state := FAILURE \<rparr>)"
    by (intro add_event_guard) simp
qed

subsection \<open>The example run\<close>

lemmas ex_run_defs =
  ex_after1_def ex_after2_def ex_after3_def ex_src0_def ex_src1_def ex_child_def
  ex_read_def new_read_def ex_mapper_def ex_env_def ex_opts_def ex_st_eq empty_path_def

lemmas step_defs =
  add_event_def add_stay_def put_next_def put_source_def make_source_def make_child_def
  memcpy_list_def NUM_TYPES_def type_tail_def is_valid_def invalidate_def
  update_seeds_def is_seed_valid_def match_len_def type_head_def
  range_is_valid_def range_length_def range_eq_def range_less_def path_less_def
  sort_dedup_def source_before_def source_after_def sort_paths_def Let_def

lemma upt1: "[0 ..< Suc 0] = [0]"
  by simp

lemma ex_step1: "add_event ex_env ex_st ex_read 0 = Some (False, ex_after1)"
  by (simp add: ex_run_defs step_defs upt2)

lemma ex_step2: "add_event ex_env ex_st ex_after1 10 = Some (False, ex_after2)"
  by (simp add: ex_run_defs step_defs upt2)

lemma ex_step3: "add_event ex_env ex_st ex_after2 (15 / 2) = Some (False, ex_after3)"
  by (simp add: ex_run_defs step_defs upt2)


theorem add_event_limit_witness:
  "event_i ex_read = 0 \<and> length [0, 10, 15 / 2 :: real] = max_events_proc (opts ex_read) \<and>
   max_events_proc (opts ex_read) < 2 ^ 32 \<and>
   add_events ex_env ex_st ex_read [0, 10, 15 / 2] = Some (False, ex_after3) \<and>
   state ex_after3 = state ex_read \<and>
   unat (event_i ex_after3) = max_events_proc (opts ex_read) \<and>
   add_event ex_env ex_st ex_after3 0 = Some (True, ex_after3\<lparr> reset := False, state := FAILURE \<rparr>) \<and>
   reset (request_reset ex_after1) \<and>
   add_event ex_env ex_st (request_reset ex_after1) 10 =
     Some (True, (request_reset ex_after1)\<lparr> reset := False, state := FAILURE \<rparr>)"
proof -
  have h1: "event_i ex_read = 0" by (simp add: ex_read_def new_read_def)
  have h2: "length [0, 10, 15 / 2 :: real] = max_events_proc (opts ex_read)"
    and h3: "max_events_proc (opts ex_read) < 2 ^ 32"
    by (simp_all add: ex_read_def new_read_def ex_mapper_def ex_opts_def)
  have h4: "add_events ex_env ex_st ex_read [0, 10, 15 / 2] = Some (False, ex_after3)"
    by (simp add: ex_step1 ex_step2 ex_step3)
  have h6: "reset (request_reset ex_after1)" by (simp add: request_reset_def)
  from add_event_limit [of ex_read ex_env ex_st 0 "[0, 10, 15 / 2]" ex_after3] h1 h2 h3 h4
  have a: "state ex_after3 = state ex_read"
    "unat (event_i ex_after3) = max_events_proc (opts ex_read)"
    "add_event ex_env ex_st ex_after3 0 = Some (True, ex_after3\<lparr> reset := False, state := FAILURE \<rparr>)"
    by blast+
  from add_event_limit [of "request_reset ex_after1" ex_env ex_st 10 "[]" ex_after1] h6
  have b: "add_event ex_env ex_st (request_reset ex_after1) 10 =
     Some (True, (request_reset ex_after1)\<lparr> reset := False, state := FAILURE \<rparr>)"
    by blast
  from h1 h2 h3 h4 h6 a b show ?thesis by blast
qed

text \<open>
  In the example run \<^verbatim>\<open>max_events_proc\<close> is 3.  After the three events 0, 10
  and 7.5 of a new read, none with a tracker hit, the state is MAPPING, not
  FAILURE.
\<close>

theorem add_event_limit_counterexample:
  "length [0, 10, 15 / 2 :: real] = max_events_proc (opts ex_read) \<and>
   event_i ex_read = 0 \<and> state ex_read = MAPPING \<and>
   add_events ex_env ex_st ex_read [0, 10, 15 / 2] = Some (False, ex_after3) \<and>
   state ex_after3 = MAPPING \<and> state ex_after3 \<noteq> FAILURE"
proof -
  have "length [0, 10, 15 / 2 :: real] = max_events_proc (opts ex_read)"
    "event_i ex_read = 0" "state ex_read = MAPPING"
    by (simp_all add: ex_read_def new_read_def ex_mapper_def ex_opts_def)
  moreover have "add_events ex_env ex_st ex_read [0, 10, 15 / 2] = Some (False, ex_after3)"
    by (simp add: ex_step1 ex_step2 ex_step3)
  moreover have "state ex_after3 = MAPPING" "state ex_after3 \<noteq> FAILURE"
    by (simp_all add: ex_after3_def ex_after2_def ex_after1_def ex_read_def new_read_def)
  ultimately show ?thesis by blast
qed

text \<open>
  C9 (the flags are not always reset).  In the example run the flags are all
  false before the second event.  During it the sorted children hold one path
  of k-mer 1, so the loop over the children sets \<open>sources_added[1]\<close>, and the
  source it adds before that path fills the beam.  The last loop then does not
  run at all, and the flag is still set when the third event starts.  In the
  third event k-mer 1 has no child, its probability passes the source
  threshold, its range is valid and both slots are free; yet the set flag makes
  the last loop skip it, and the beam ends empty.  With the flag cleared the
  same event adds the source.
\<close>

theorem sources_added_left_set:
  "sources_added ex_after1 = [False, False] \<and>
   add_event ex_env ex_st ex_after1 10 = Some (False, ex_after2) \<and>
   sources_added ex_after2 = [False, True] \<and>
   add_event ex_env ex_st ex_after2 (15 / 2) = Some (False, ex_after3) \<and>
   prev_size ex_after3 = 0 \<and>
   get_source_prob (opts ex_after2) \<le> kmer_probs ex_after3 ! 1 \<and>
   range_is_valid (kmer_fmranges (opts ex_after2) 1) \<and>
   (case add_event ex_env ex_st (ex_after2\<lparr> sources_added := [False, False] \<rparr>) (15 / 2) of
      Some (t, m) \<Rightarrow> prev_size m = 1 \<and> kmer (prev_paths m ! 0) = 1 \<and>
                     fm_range (prev_paths m ! 0) = \<lparr> range_start = 5, range_end = 8 \<rparr>
    | None \<Rightarrow> False)"
proof -
  have "sources_added ex_after1 = [False, False]" "sources_added ex_after2 = [False, True]"
    "prev_size ex_after3 = 0" "get_source_prob (opts ex_after2) \<le> kmer_probs ex_after3 ! 1"
    "range_is_valid (kmer_fmranges (opts ex_after2) 1)"
    by (simp_all add: ex_run_defs range_is_valid_def)
  moreover have "case add_event ex_env ex_st (ex_after2\<lparr> sources_added := [False, False] \<rparr>) (15 / 2) of
      Some (t, m) \<Rightarrow> prev_size m = 1 \<and> kmer (prev_paths m ! 0) = 1 \<and>
                     fm_range (prev_paths m ! 0) = \<lparr> range_start = 5, range_end = 8 \<rparr>
    | None \<Rightarrow> False"
    by (simp add: ex_run_defs step_defs upt2)
  ultimately show ?thesis using ex_step2 ex_step3 by blast
qed

subsection \<open>The sorted children\<close>

lemma keeps_put_source:
  assumes "put_source m np r k = (m', np')" "n \<le> np" "np < length (next_paths m)"
  shows "keeps n m np m' np'"
  using assms by (auto simp: put_source_def put_next_def keeps_def split: if_splits)

lemma keeps_source_before:
  assumes "source_before m np i k pk u = (m', np', u')" "n \<le> np" "np \<le> length (next_paths m)"
  shows "keeps n m np m' np'"
proof (cases "k \<noteq> pk \<and> np \<noteq> length (next_paths m) \<and> kmer_probs m ! unat k \<ge> get_source_prob (opts m)")
  case False
  with assms show ?thesis by (auto simp: source_before_def keeps_def)
next
  case True
  let ?m1 = "m\<lparr> sources_added := (sources_added m)[unat k := True] \<rparr>"
  let ?r = "\<lparr> range_start = range_start (kmer_fmranges (opts m) k),
               range_end = range_start (fm_range (next_paths m ! i)) - 1 \<rparr>"
  obtain m2 np2 where p: "put_source ?m1 np ?r k = (m2, np2)" by (cases "put_source ?m1 np ?r k") auto
  from True assms(3) have "np < length (next_paths ?m1)" by simp
  with p assms(2) have "keeps n ?m1 np m2 np2" by (intro keeps_put_source)
  moreover from assms(1) True p have "m' = m2" "np' = np2" by (simp_all add: source_before_def Let_def)
  ultimately show ?thesis by (simp add: keeps_def)
qed

lemma keeps_source_after:
  assumes "source_after m np nn i k u = (m', np', u')" "n \<le> np" "np \<le> length (next_paths m)"
  shows "keeps n m np m' np'"
proof (cases "np \<noteq> length (next_paths m) \<and> kmer_probs m ! unat k \<ge> get_source_prob (opts m)")
  case False
  with assms show ?thesis by (auto simp: source_after_def keeps_def)
next
  case True
  with assms(3) have lt: "np < length (next_paths m)" by simp
  from assms(1) True obtain r where "put_source m np r k = (m', np')"
    by (auto simp: source_after_def Let_def split: if_splits prod.splits)
  with assms(2) lt show ?thesis by (intro keeps_put_source)
qed

lemma update_seeds_path:
  "update_seeds e st m p pe = Some (p', m') \<Longrightarrow>
     next_paths m' = next_paths m \<and> p'\<lparr> sa_checked := sa_checked p \<rparr> = p"
  by (auto simp: update_seeds_def split: if_splits option.splits)

lemma keeps_trans:
  "keeps n m np m1 np1 \<Longrightarrow> keeps n' m1 np1 m2 np2 \<Longrightarrow> n' \<le> n \<Longrightarrow> keeps n' m np m2 np2"
  by (auto simp: keeps_def)

lemma keeps_mono: "keeps n m np m' np' \<Longrightarrow> n' \<le> n \<Longrightarrow> keeps n' m np m' np'"
  by (auto simp: keeps_def)

lemma dedup_loop_children:
  assumes "dedup_loop e st n [i ..< n] m np pk u = Some (m', np')"
    and "n \<le> np" "np \<le> length (next_paths m)"
  shows "keeps i m np m' np' \<and>
         (\<forall>j. i \<le> j \<and> j < n \<longrightarrow> processed n (next_paths m) j (next_paths m' ! j))"
  using assms
proof (induction "n - i" arbitrary: i m np pk u)
  case 0
  then have "[i ..< n] = []" by simp
  with 0 show ?case by (auto simp: keeps_def)
next
  case (Suc d)
  then have lt: "i < n" by simp
  then have upt: "[i ..< n] = i # [Suc i ..< n]" by (simp add: upt_conv_Cons)
  have d: "d = n - Suc i" using Suc.hyps(2) by simp
  let ?k = "kmer (next_paths m ! i)"
  obtain m1 np1 u1 where b: "source_before m np i ?k pk u = (m1, np1, u1)"
    by (cases "source_before m np i ?k pk u") auto
  have k1: "keeps n m np m1 np1" using b Suc.prems(2,3) by (rule keeps_source_before)
  then have e1: "\<And>j. j < n \<Longrightarrow> next_paths m1 ! j = next_paths m ! j"
    and l1: "length (next_paths m1) = length (next_paths m)" and n1: "n \<le> np1" "np1 \<le> length (next_paths m1)"
    using Suc.prems(2) by (auto simp: keeps_def)
  have i1: "Suc i < n \<Longrightarrow> next_paths m1 ! Suc i = next_paths m ! Suc i" by (rule e1)
  have dupi: "(i < n - 1 \<and> range_eq (fm_range (next_paths m1 ! i)) (fm_range (next_paths m1 ! (i + 1))))
                = dup_at n (next_paths m) i"
    using lt e1 [of i] i1 by (auto simp: dup_at_def)
  have ilen: "i < length (next_paths m1)" using lt n1 by simp
  show ?case
  proof (cases "dup_at n (next_paths m) i")
    case True
    let ?m2 = "put_next m1 i (invalidate (next_paths m1 ! i))"
    from Suc.prems(1) b True dupi
    have run: "dedup_loop e st n [Suc i ..< n] ?m2 np1 ?k u1 = Some (m', np')"
      by (simp add: upt Let_def)
    have len2: "length (next_paths ?m2) = length (next_paths m1)" by (simp add: put_next_def)
    from Suc.hyps(1) [OF d run] n1 len2
    have ih: "keeps (Suc i) ?m2 np1 m' np'"
      "\<And>j. Suc i \<le> j \<Longrightarrow> j < n \<Longrightarrow> processed n (next_paths ?m2) j (next_paths m' ! j)"
      by simp_all
    have ent2: "\<And>j. j < n \<Longrightarrow> j \<noteq> i \<Longrightarrow> next_paths ?m2 ! j = next_paths m ! j"
      using e1 by (simp add: put_next_def)
    have at_i: "next_paths m' ! i = invalidate (next_paths m ! i)"
      using ih(1) ilen e1 [OF lt] by (simp add: keeps_def put_next_def)
    have "keeps i m np m' np'"
      using ih(1) k1 len2 l1 lt ent2 by (auto simp: keeps_def)
    moreover have "\<forall>j. i \<le> j \<and> j < n \<longrightarrow> processed n (next_paths m) j (next_paths m' ! j)"
    proof (intro allI impI)
      fix j assume j: "i \<le> j \<and> j < n"
      show "processed n (next_paths m) j (next_paths m' ! j)"
      proof (cases "j = i")
        case True
        with at_i \<open>dup_at n (next_paths m) i\<close> show ?thesis by (simp add: processed_def)
      next
        case False
        with j have sj: "Suc i \<le> j" "j < n" by simp_all
        have eqj: "next_paths ?m2 ! j = next_paths m ! j" using sj by (intro ent2) simp_all
        have "dup_at n (next_paths ?m2) j = dup_at n (next_paths m) j"
          using sj ent2 [of j] ent2 [of "j + 1"] by (auto simp: dup_at_def)
        with ih(2) [OF sj] show ?thesis by (simp only: processed_def eqj)
      qed
    qed
    ultimately show ?thesis by simp
  next
    case False
    obtain m2 np2 u2 where a: "source_after m1 np1 n i ?k u1 = (m2, np2, u2)"
      by (cases "source_after m1 np1 n i ?k u1") auto
    have k2: "keeps n m1 np1 m2 np2" using a n1 by (rule keeps_source_after)
    from Suc.prems(1) b False dupi a
    obtain p' m3 where us: "update_seeds e st m2 (next_paths m2 ! i) False = Some (p', m3)"
      and run: "dedup_loop e st n [Suc i ..< n] (put_next m3 i p') np2 ?k u2 = Some (m', np')"
      by (auto simp: upt Let_def split: option.splits)
    let ?m4 = "put_next m3 i p'"
    have np3: "next_paths m3 = next_paths m2" and p': "p'\<lparr> sa_checked := sa_checked (next_paths m2 ! i) \<rparr> = next_paths m2 ! i"
      using update_seeds_path [OF us] by simp_all
    have e2: "\<And>j. j < n \<Longrightarrow> next_paths m2 ! j = next_paths m ! j"
      using k2 e1 by (simp add: keeps_def)
    have l2: "length (next_paths m2) = length (next_paths m)" "n \<le> np2" "np2 \<le> length (next_paths m2)"
      "np \<le> np2"
      using k2 k1 n1 l1 by (auto simp: keeps_def)
    have len4: "length (next_paths ?m4) = length (next_paths m)" by (simp add: put_next_def np3 l2)
    from Suc.hyps(1) [OF d run] l2 len4
    have ih: "keeps (Suc i) ?m4 np2 m' np'"
      "\<And>j. Suc i \<le> j \<Longrightarrow> j < n \<Longrightarrow> processed n (next_paths ?m4) j (next_paths m' ! j)"
      by simp_all
    have ent4: "\<And>j. j < n \<Longrightarrow> j \<noteq> i \<Longrightarrow> next_paths ?m4 ! j = next_paths m ! j"
      using e2 by (simp add: put_next_def np3)
    have at_i: "next_paths m' ! i = p'"
      using ih(1) lt l2 by (simp add: keeps_def put_next_def np3)
    have "keeps i m np m' np'"
      using ih(1) len4 l2 lt ent4 by (auto simp: keeps_def)
    moreover have "\<forall>j. i \<le> j \<and> j < n \<longrightarrow> processed n (next_paths m) j (next_paths m' ! j)"
    proof (intro allI impI)
      fix j assume j: "i \<le> j \<and> j < n"
      show "processed n (next_paths m) j (next_paths m' ! j)"
      proof (cases "j = i")
        case True
        with at_i False p' e2 [OF lt] show ?thesis by (simp add: processed_def)
      next
        case nj: False
        with j have sj: "Suc i \<le> j" "j < n" by simp_all
        have eqj: "next_paths ?m4 ! j = next_paths m ! j" using sj by (intro ent4) simp_all
        have "dup_at n (next_paths ?m4) j = dup_at n (next_paths m) j"
          using sj ent4 [of j] ent4 [of "j + 1"] by (auto simp: dup_at_def)
        with ih(2) [OF sj] show ?thesis by (simp only: processed_def eqj)
      qed
    qed
    ultimately show ?thesis by simp
  qed
qed

subsection \<open>Ranges\<close>

lemma range_eq_iff: "range_eq a b \<longleftrightarrow> a = b" for a b :: Range
  by (cases a, cases b) (auto simp: range_eq_def)

lemma Range_neq_disjoint:
  assumes "range_is_valid a" "range_is_valid b" "disjoint_ranges a b"
  shows "a \<noteq> b"
  using assms by (auto simp: range_is_valid_def disjoint_ranges_def)

lemma inside_disjoint:
  assumes "range_is_valid a" "range_is_valid b" "inside a ka" "inside b kb" "disjoint_ranges ka kb"
  shows "a \<noteq> b"
  using assms by (auto simp: range_is_valid_def disjoint_ranges_def inside_def)

lemma word_pred_less: "x \<noteq> 0 \<Longrightarrow> x - 1 < x" for x :: "'a::len word"
  using unat_gt_0 [of x] by (simp add: word_less_nat_alt unat_minus_one)

lemma word_le_pred_iff: "x \<noteq> 0 \<Longrightarrow> y \<le> x - 1 \<longleftrightarrow> y < x" for x y :: "'a::len word"
  using unat_gt_0 [of x] by (auto simp: word_less_nat_alt word_le_nat_alt unat_minus_one)

lemma word_less_succ_iff: "x \<noteq> - 1 \<Longrightarrow> y < x + 1 \<longleftrightarrow> y \<le> x" for x y :: "'a::len word"
  by (auto simp: word_less_nat_alt word_le_nat_alt unat_plus_one)

lemma word_succ_le_iff: "x \<noteq> - 1 \<Longrightarrow> x + 1 \<le> y \<longleftrightarrow> x < y" for x y :: "'a::len word"
  by (auto simp: word_less_nat_alt word_le_nat_alt unat_plus_one)

lemma word_le_not_max: "x \<le> y \<Longrightarrow> y \<noteq> - 1 \<Longrightarrow> x \<noteq> - 1" for x y :: "'a::len word"
  by (metis order_antisym max_word_max)

lemma sources_of_snoc:
  assumes "n \<le> np" "np < length nxt"
  shows "sources_of n (Suc np) (nxt[np := p]) = sources_of n np nxt @ [p]"
  using assms by (simp add: sources_of_def take_Suc_conv_app_nth)

lemma sources_of_update_low:
  assumes "i < n" "n \<le> np"
  shows "sources_of n np (nxt[i := p]) = sources_of n np nxt"
  using assms by (simp add: sources_of_def take_update_swap)

lemma make_source_fields [simp]:
  "kmer (make_source this r k pr) = k" "fm_range (make_source this r k pr) = r"
  by (simp_all add: make_source_def)

subsection \<open>Sorted children that are consistent with the k-mer ranges\<close>

lemma fm_consistent_nth:
  assumes "fm_consistent opt S" "j < length S"
  shows "range_is_valid (fm_range (S ! j))"
    and "inside (fm_range (S ! j)) (kmer_fmranges opt (kmer (S ! j)))"
    and "range_start (fm_range (S ! j)) \<noteq> 0"
    and "range_end (kmer_fmranges opt (kmer (S ! j))) \<noteq> - 1"
  using assms by (auto simp: fm_consistent_def list_all_length)

lemma fm_consistent_kmers:
  assumes "fm_consistent opt S" "j < length S" "l < length S" "kmer (S ! j) \<noteq> kmer (S ! l)"
  shows "disjoint_ranges (kmer_fmranges opt (kmer (S ! j))) (kmer_fmranges opt (kmer (S ! l)))"
  using assms by (auto simp: fm_consistent_def list_all_length)

lemma fm_consistent_end:
  assumes "fm_consistent opt S" "j < length S"
  shows "range_end (fm_range (S ! j)) \<noteq> - 1"
  using fm_consistent_nth(2,4) [OF assms] by (auto simp: inside_def dest: word_le_not_max)

lemma sorted_starts:
  assumes "sorted_wrt (\<lambda>a b. \<not> path_less b a) S" "j \<le> l" "l < length S"
  shows "range_start (fm_range (S ! j)) \<le> range_start (fm_range (S ! l))"
proof (cases "j = l")
  case True
  then show ?thesis by simp
next
  case False
  with assms have "\<not> path_less (S ! l) (S ! j)" by (simp add: sorted_wrt_iff_nth_less)
  then show ?thesis by (auto simp: path_less_def range_less_def)
qed

lemma sorted_eq_ranges:
  assumes "sorted_wrt (\<lambda>a b. \<not> path_less b a) S" "j \<le> l" "l \<le> j'" "j' < length S"
    and "fm_range (S ! j) = fm_range (S ! j')"
  shows "fm_range (S ! l) = fm_range (S ! j)"
proof -
  have a: "\<not> range_less (fm_range (S ! l)) (fm_range (S ! j))"
  proof (cases "j = l")
    case True then show ?thesis by (simp add: range_less_def)
  next
    case False
    with assms have "\<not> path_less (S ! l) (S ! j)" by (simp add: sorted_wrt_iff_nth_less)
    then show ?thesis by (simp add: path_less_def)
  qed
  have b: "\<not> range_less (fm_range (S ! j')) (fm_range (S ! l))"
  proof (cases "l = j'")
    case True then show ?thesis by (simp add: range_less_def)
  next
    case False
    with assms have "\<not> path_less (S ! j') (S ! l)" by (simp add: sorted_wrt_iff_nth_less)
    then show ?thesis by (simp add: path_less_def)
  qed
  from a b assms(5) have "range_eq (fm_range (S ! l)) (fm_range (S ! j))"
    by (auto simp: range_less_def range_eq_def)
  then show ?thesis by (simp add: range_eq_iff)
qed

lemma sorted_probs:
  assumes "sorted_wrt (\<lambda>a b. \<not> path_less b a) S" "j \<le> l" "l < length S"
    and "fm_range (S ! j) = fm_range (S ! l)"
  shows "seed_prob (S ! j) \<le> seed_prob (S ! l)"
proof (cases "j = l")
  case True
  then show ?thesis by simp
next
  case False
  with assms have "\<not> path_less (S ! l) (S ! j)" by (simp add: sorted_wrt_iff_nth_less)
  with assms(4) show ?thesis by (auto simp: path_less_def range_eq_def)
qed

lemma same_range_same_kmer:
  assumes "fm_consistent opt S" "j < length S" "l < length S" "fm_range (S ! j) = fm_range (S ! l)"
  shows "kmer (S ! j) = kmer (S ! l)"
proof (rule ccontr)
  assume "kmer (S ! j) \<noteq> kmer (S ! l)"
  then have "disjoint_ranges (kmer_fmranges opt (kmer (S ! j))) (kmer_fmranges opt (kmer (S ! l)))"
    using assms(1-3) by (intro fm_consistent_kmers)
  with fm_consistent_nth(1,2) [OF assms(1,2)] fm_consistent_nth(1,2) [OF assms(1,3)]
  have "fm_range (S ! j) \<noteq> fm_range (S ! l)" by (intro inside_disjoint)
  with assms(4) show False by simp
qed

lemma kmer_runs:
  assumes "sorted_wrt (\<lambda>a b. \<not> path_less b a) S" "fm_consistent opt S"
    and "j \<le> l" "l \<le> j'" "j' < length S" "kmer (S ! j) = kmer (S ! j')"
  shows "kmer (S ! l) = kmer (S ! j)"
proof (rule ccontr)
  assume ne: "kmer (S ! l) \<noteq> kmer (S ! j)"
  have lj: "j < length S" "l < length S" using assms(3-5) by simp_all
  have d: "disjoint_ranges (kmer_fmranges opt (kmer (S ! l))) (kmer_fmranges opt (kmer (S ! j)))"
    using assms(2) lj ne by (intro fm_consistent_kmers) simp_all
  have s1: "range_start (fm_range (S ! j)) \<le> range_start (fm_range (S ! l))"
    using assms(1,3) lj by (intro sorted_starts)
  have s2: "range_start (fm_range (S ! l)) \<le> range_start (fm_range (S ! j'))"
    using assms(1,4,5) by (intro sorted_starts)
  note fj = fm_consistent_nth(1,2) [OF assms(2) lj(1)]
  note fl = fm_consistent_nth(1,2) [OF assms(2) lj(2)]
  note fj' = fm_consistent_nth(1,2) [OF assms(2,5)]
  from d fj fl fj' s1 s2 assms(6) show False
    by (auto simp: disjoint_ranges_def inside_def range_is_valid_def)
qed

subsection \<open>Sources between the children\<close>

lemma base_inv_mono:
  "base_inv opt S cap i nxt np \<Longrightarrow> i \<le> i' \<Longrightarrow> base_inv opt S cap i' nxt np"
  unfolding base_inv_def by (meson less_le_trans)

lemma base_inv_child:
  assumes "base_inv opt S cap i nxt np" "j < length S"
    and "kmer p = kmer (nxt ! j)" "fm_range p = fm_range (nxt ! j)"
  shows "base_inv opt S cap i (nxt[j := p]) np"
proof -
  from assms(1) have n: "length S \<le> np" "np \<le> cap" "length nxt = cap" by (simp_all add: base_inv_def)
  have s: "sources_of (length S) np (nxt[j := p]) = sources_of (length S) np nxt"
    using assms(2) n by (intro sources_of_update_low)
  have "\<forall>l < length S. kmer (nxt[j := p] ! l) = kmer (S ! l) \<and> fm_range (nxt[j := p] ! l) = fm_range (S ! l)"
    using assms n by (auto simp: base_inv_def nth_list_update)
  with assms(1) show ?thesis by (simp add: base_inv_def s)
qed

lemma base_inv_add:
  assumes "base_inv opt S cap i nxt np" "np < cap"
    and "range_is_valid r" "inside r (kmer_fmranges opt k)"
    and "\<exists>j < i. j < length S \<and> k = kmer (S ! j)"
    and "\<forall>j < length S. r \<noteq> fm_range (S ! j)"
    and "\<forall>p \<in> set (sources_of (length S) np nxt). fm_range p \<noteq> r"
  shows "base_inv opt S cap i (nxt[np := make_source (nxt ! np) r k pr]) (Suc np)"
proof -
  from assms(1) have n: "length S \<le> np" "np \<le> cap" "length nxt = cap" by (simp_all add: base_inv_def)
  let ?p = "make_source (nxt ! np) r k pr"
  have s: "sources_of (length S) (Suc np) (nxt[np := ?p]) = sources_of (length S) np nxt @ [?p]"
    using n assms(2) by (intro sources_of_snoc) simp_all
  have c: "\<forall>l < length S. kmer (nxt[np := ?p] ! l) = kmer (S ! l) \<and> fm_range (nxt[np := ?p] ! l) = fm_range (S ! l)"
    using assms(1) n by (auto simp: base_inv_def nth_list_update)
  have d: "distinct (map fm_range (sources_of (length S) np nxt @ [?p]))"
    using assms(1,7) by (auto simp: base_inv_def)
  show ?thesis
    unfolding base_inv_def s
    using assms(1-6) n c d by (auto simp: base_inv_def)
qed

lemma fresh_range:
  assumes inv: "base_inv opt S cap i' nxt np" and fm: "fm_consistent opt S"
    and i: "i < length S" and r: "range_is_valid r" "inside r (kmer_fmranges opt (kmer (S ! i)))"
    and src: "\<forall>p \<in> set (sources_of (length S) np nxt). kmer p = kmer (S ! i) \<longrightarrow> fm_range p \<noteq> r"
    and chd: "\<forall>j < length S. kmer (S ! j) = kmer (S ! i) \<longrightarrow> fm_range (S ! j) \<noteq> r"
  shows "(\<forall>j < length S. r \<noteq> fm_range (S ! j)) \<and>
         (\<forall>p \<in> set (sources_of (length S) np nxt). fm_range p \<noteq> r)"
proof (intro conjI allI impI ballI)
  fix j assume j: "j < length S"
  show "r \<noteq> fm_range (S ! j)"
  proof (cases "kmer (S ! j) = kmer (S ! i)")
    case True
    with chd j show ?thesis by auto
  next
    case False
    then have "disjoint_ranges (kmer_fmranges opt (kmer (S ! i))) (kmer_fmranges opt (kmer (S ! j)))"
      using fm i j by (intro fm_consistent_kmers) simp_all
    with r fm_consistent_nth(1,2) [OF fm j] show ?thesis by (intro inside_disjoint)
  qed
next
  fix p assume p: "p \<in> set (sources_of (length S) np nxt)"
  show "fm_range p \<noteq> r"
  proof (cases "kmer p = kmer (S ! i)")
    case True
    with src p show ?thesis by auto
  next
    case False
    from inv p obtain j where j: "j < length S" "kmer p = kmer (S ! j)"
      and pv: "range_is_valid (fm_range p)" "inside (fm_range p) (kmer_fmranges opt (kmer p))"
      by (auto simp: base_inv_def)
    with False have "disjoint_ranges (kmer_fmranges opt (kmer (S ! j))) (kmer_fmranges opt (kmer (S ! i)))"
      using fm i by (intro fm_consistent_kmers) simp_all
    with pv r j show ?thesis by (intro inside_disjoint) simp_all
  qed
qed

lemma put_source_next:
  "put_source m np r k = (m', np') \<Longrightarrow>
     opts m' = opts m \<and> kmer_probs m' = kmer_probs m \<and>
     (if range_is_valid r
      then next_paths m' = (next_paths m)[np := make_source (next_paths m ! np) r k (kmer_probs m ! unat k)] \<and>
           np' = Suc np
      else next_paths m' = next_paths m \<and> np' = np)"
  by (auto simp: put_source_def put_next_def split: if_splits)

lemma new_run_no_earlier:
  assumes srt: "sorted_wrt (\<lambda>a b. \<not> path_less b a) S" and fm: "fm_consistent opt S"
    and i: "i < length S"
    and pk: "if i = 0 then \<forall>j < length S. pk \<noteq> kmer (S ! j) else pk = kmer (S ! (i - 1))"
    and ne: "kmer (S ! i) \<noteq> pk" and j: "j < i"
  shows "kmer (S ! j) \<noteq> kmer (S ! i)"
proof
  assume eq: "kmer (S ! j) = kmer (S ! i)"
  from j have i0: "i \<noteq> 0" by simp
  have "kmer (S ! (i - 1)) = kmer (S ! j)"
    using srt fm _ _ i eq by (rule kmer_runs) (use j in simp_all)
  with pk i0 ne eq show False by simp
qed

lemma source_before_inv:
  assumes srt: "sorted_wrt (\<lambda>a b. \<not> path_less b a) S" and fm: "fm_consistent (opts m) S"
    and i: "i < length S"
    and inv: "base_inv (opts m) S (length (next_paths m)) i (next_paths m) np"
    and pk: "if i = 0 then \<forall>j < length S. pk \<noteq> kmer (S ! j) else pk = kmer (S ! (i - 1))"
    and un: "pk = kmer (S ! i) \<longrightarrow>
               unch (opts m) (kmer_probs m) S (length (next_paths m)) i (next_paths m) np pk u"
    and run: "source_before m np i (kmer (S ! i)) pk u = (m1, np1, u1)"
  shows "base_inv (opts m) S (length (next_paths m)) (Suc i) (next_paths m1) np1 \<and>
         unch (opts m) (kmer_probs m) S (length (next_paths m)) i (next_paths m1) np1 (kmer (S ! i)) u1 \<and>
         opts m1 = opts m \<and> kmer_probs m1 = kmer_probs m \<and>
         length (next_paths m1) = length (next_paths m)"
proof -
  let ?k = "kmer (S ! i)" and ?cap = "length (next_paths m)" and ?nxt = "next_paths m"
  let ?kf = "kmer_fmranges (opts m) ?k"
  from inv have n: "length S \<le> np" "np \<le> ?cap"
    and same: "\<And>j. j < length S \<Longrightarrow> kmer (?nxt ! j) = kmer (S ! j) \<and> fm_range (?nxt ! j) = fm_range (S ! j)"
    by (simp_all add: base_inv_def)
  have inv': "base_inv (opts m) S ?cap (Suc i) ?nxt np" using inv by (rule base_inv_mono) simp
  show ?thesis
  proof (cases "?k \<noteq> pk \<and> np \<noteq> ?cap \<and> kmer_probs m ! unat ?k \<ge> get_source_prob (opts m)")
    case False
    with run have r: "m1 = m" "np1 = np" "u1 = u" by (auto simp: source_before_def)
    show ?thesis
    proof (cases "?k = pk")
      case True
      with un inv' r show ?thesis by simp
    next
      case ne: False
      with False have "\<not> (np \<noteq> ?cap \<and> get_source_prob (opts m) \<le> kmer_probs m ! unat ?k)" by simp
      then have "unch (opts m) (kmer_probs m) S ?cap i ?nxt np ?k u" unfolding unch_def by blast
      with inv' r show ?thesis by simp
    qed
  next
    case True
    then have ne: "?k \<noteq> pk" and lt: "np < ?cap" using n by simp_all
    have early: "\<And>j. j < i \<Longrightarrow> kmer (S ! j) \<noteq> ?k"
      using srt fm i pk ne by (rule new_run_no_earlier)
    have nosrc: "\<And>p. p \<in> set (sources_of (length S) np ?nxt) \<Longrightarrow> kmer p \<noteq> ?k"
      using inv early by (auto simp: base_inv_def)
    note fi = fm_consistent_nth [OF fm i]
    have iend: "range_end (fm_range (S ! i)) \<noteq> - 1" using fm i by (rule fm_consistent_end)
    let ?m0 = "m\<lparr> sources_added := (sources_added m)[unat ?k := True] \<rparr>"
    let ?r = "\<lparr> range_start = range_start ?kf, range_end = range_start (fm_range (S ! i)) - 1 \<rparr>"
    obtain m2 np2 where ps: "put_source ?m0 np ?r ?k = (m2, np2)"
      by (cases "put_source ?m0 np ?r ?k") auto
    note psn = put_source_next [OF ps]
    have nxt_i: "fm_range (next_paths m2 ! i) = fm_range (S ! i)"
      using psn same [OF i] i n by (auto simp: nth_list_update split: if_splits)
    from run True ps same [OF i] nxt_i
    have res: "m1 = m2" "np1 = np2"
      "u1 = \<lparr> range_start = range_end (fm_range (S ! i)) + 1, range_end = range_end ?kf \<rparr>"
      by (simp_all add: source_before_def Let_def)
    have frame: "opts m1 = opts m" "kmer_probs m1 = kmer_probs m" "length (next_paths m1) = length (next_paths m)"
      using psn res by (auto split: if_splits)
    have u_start: "range_end (fm_range (S ! i)) < range_start u1"
      using iend by (simp add: res word_less_succ_iff)
    have pred: "range_start (fm_range (S ! i)) - 1 < range_start (fm_range (S ! i))"
      using fi(3) by (rule word_pred_less)
    show ?thesis
    proof (cases "range_is_valid ?r")
      case False
      with psn res have eq: "next_paths m1 = ?nxt" "np1 = np" by simp_all
      have "unch (opts m) (kmer_probs m) S ?cap i ?nxt np ?k u1"
        unfolding unch_def
      proof (intro impI conjI allI ballI)
        show "range_end u1 = range_end ?kf" by (simp add: res)
      next
        fix j assume "j \<le> i" "j < length S \<and> kmer (S ! j) = ?k"
        with early [of j] have "j = i" by (cases "j = i") auto
        with u_start show "range_end (fm_range (S ! j)) < range_start u1" by simp
      next
        fix p assume "p \<in> set (sources_of (length S) np ?nxt)" "kmer p = ?k"
        with nosrc show "range_end (fm_range p) < range_start u1" by blast
      qed
      with inv' eq frame show ?thesis by simp
    next
      case valid: True
      let ?p = "make_source (?nxt ! np) ?r ?k (kmer_probs m ! unat ?k)"
      from valid psn res have eq: "next_paths m1 = ?nxt[np := ?p]" "np1 = Suc np" by simp_all
      have ins: "inside ?r ?kf"
        using fi(1,2) pred by (auto simp: inside_def range_is_valid_def)
      have chd: "\<forall>j < length S. kmer (S ! j) = ?k \<longrightarrow> fm_range (S ! j) \<noteq> ?r"
      proof (intro allI impI)
        fix j assume j: "j < length S" "kmer (S ! j) = ?k"
        with early [of j] have "i \<le> j" by (cases "j < i") auto
        then have "range_start (fm_range (S ! i)) \<le> range_start (fm_range (S ! j))"
          using srt j(1) by (intro sorted_starts)
        with pred fm_consistent_nth(1) [OF fm j(1)]
        have "range_end ?r < range_end (fm_range (S ! j))" by (auto simp: range_is_valid_def)
        then show "fm_range (S ! j) \<noteq> ?r" by auto
      qed
      have src: "\<forall>p \<in> set (sources_of (length S) np ?nxt). kmer p = ?k \<longrightarrow> fm_range p \<noteq> ?r"
        using nosrc by blast
      from fresh_range [OF inv' fm i valid ins src chd]
      have fresh: "\<forall>j < length S. ?r \<noteq> fm_range (S ! j)"
        "\<forall>p \<in> set (sources_of (length S) np ?nxt). fm_range p \<noteq> ?r"
        by simp_all
      have ex: "\<exists>j < Suc i. j < length S \<and> ?k = kmer (S ! j)" using i by auto
      have b: "base_inv (opts m) S ?cap (Suc i) (?nxt[np := ?p]) (Suc np)"
        using inv' lt valid ins ex fresh by (rule base_inv_add)
      have so: "sources_of (length S) (Suc np) (?nxt[np := ?p]) = sources_of (length S) np ?nxt @ [?p]"
        using n lt by (intro sources_of_snoc) simp_all
      have "unch (opts m) (kmer_probs m) S ?cap i (?nxt[np := ?p]) (Suc np) ?k u1"
        unfolding unch_def so
      proof (intro impI conjI allI ballI)
        show "range_end u1 = range_end ?kf" by (simp add: res)
      next
        fix j assume "j \<le> i" "j < length S \<and> kmer (S ! j) = ?k"
        with early [of j] have "j = i" by (cases "j = i") auto
        with u_start show "range_end (fm_range (S ! j)) < range_start u1" by simp
      next
        fix p assume p: "p \<in> set (sources_of (length S) np ?nxt @ [?p])" "kmer p = ?k"
        with nosrc have "p = ?p" by auto
        moreover have "range_start (fm_range (S ! i)) - 1 < range_start u1"
          using pred fi(1) u_start by (auto simp: range_is_valid_def)
        ultimately show "range_end (fm_range p) < range_start u1" by simp
      qed
      with b eq frame show ?thesis by simp
    qed
  qed
qed

lemma source_after_inv:
  assumes srt: "sorted_wrt (\<lambda>a b. \<not> path_less b a) S" and fm: "fm_consistent (opts m) S"
    and i: "i < length S"
    and inv: "base_inv (opts m) S (length (next_paths m)) (Suc i) (next_paths m) np"
    and un: "unch (opts m) (kmer_probs m) S (length (next_paths m)) i (next_paths m) np (kmer (S ! i)) u"
    and run: "source_after m np (length S) i (kmer (S ! i)) u = (m2, np2, u2)"
  shows "base_inv (opts m) S (length (next_paths m)) (Suc i) (next_paths m2) np2 \<and>
         (Suc i < length S \<and> kmer (S ! Suc i) = kmer (S ! i) \<longrightarrow>
            unch (opts m) (kmer_probs m) S (length (next_paths m)) (Suc i) (next_paths m2) np2
              (kmer (S ! i)) u2) \<and>
         opts m2 = opts m \<and> kmer_probs m2 = kmer_probs m \<and>
         length (next_paths m2) = length (next_paths m)"
proof -
  let ?k = "kmer (S ! i)" and ?cap = "length (next_paths m)" and ?nxt = "next_paths m"
  let ?kf = "kmer_fmranges (opts m) ?k"
  let ?srcs = "sources_of (length S) np ?nxt"
  from inv have n: "length S \<le> np" "np \<le> ?cap"
    and same: "\<And>j. j < length S \<Longrightarrow> kmer (?nxt ! j) = kmer (S ! j) \<and> fm_range (?nxt ! j) = fm_range (S ! j)"
    and srcv: "\<And>p. p \<in> set ?srcs \<Longrightarrow> range_is_valid (fm_range p)"
    by (simp_all add: base_inv_def)
  show ?thesis
  proof (cases "np \<noteq> ?cap \<and> kmer_probs m ! unat ?k \<ge> get_source_prob (opts m)")
    case False
    with run have r: "m2 = m" "np2 = np" "u2 = u" by (auto simp: source_after_def)
    from False have "unch (opts m) (kmer_probs m) S ?cap (Suc i) ?nxt np ?k u"
      unfolding unch_def by blast
    with inv r show ?thesis by simp
  next
    case True
    then have lt: "np < ?cap" using n by simp
    from un True have u_end: "range_end u = range_end ?kf"
      and u_chd: "\<And>j. j \<le> i \<Longrightarrow> j < length S \<Longrightarrow> kmer (S ! j) = ?k \<Longrightarrow>
                    range_end (fm_range (S ! j)) < range_start u"
      and u_src: "\<And>p. p \<in> set ?srcs \<Longrightarrow> kmer p = ?k \<Longrightarrow> range_end (fm_range p) < range_start u"
      unfolding unch_def by blast+
    note fi = fm_consistent_nth [OF fm i]
    have u_lo: "range_start ?kf \<le> range_start u"
      using u_chd [of i] i fi(1,2) by (auto simp: inside_def range_is_valid_def)
    have ex: "\<exists>j < Suc i. j < length S \<and> ?k = kmer (S ! j)" using i by auto
    \<comment> \<open>a candidate range that starts at the unchecked start\<close>
    have add: "base_inv (opts m) S ?cap (Suc i) (?nxt[np := make_source (?nxt ! np) r ?k pr]) (Suc np)"
      if r: "range_is_valid r" "range_start r = range_start u" "range_end r \<le> range_end ?kf"
        and later: "\<And>j. i < j \<Longrightarrow> j < length S \<Longrightarrow> kmer (S ! j) = ?k \<Longrightarrow>
                      range_end r < range_start (fm_range (S ! j))"
      for r pr
    proof -
      have ins: "inside r ?kf" using r u_lo by (simp add: inside_def)
      have chd: "\<forall>j < length S. kmer (S ! j) = ?k \<longrightarrow> fm_range (S ! j) \<noteq> r"
      proof (intro allI impI)
        fix j assume j: "j < length S" "kmer (S ! j) = ?k"
        show "fm_range (S ! j) \<noteq> r"
        proof (cases "j \<le> i")
          case True
          from u_chd [OF True j] fm_consistent_nth(1) [OF fm j(1)] r(2)
          show ?thesis by (auto simp: range_is_valid_def)
        next
          case False
          then have "range_end r < range_start (fm_range (S ! j))" using j by (intro later) simp_all
          with r(1) show ?thesis by (auto simp: range_is_valid_def)
        qed
      qed
      have src: "\<forall>p \<in> set ?srcs. kmer p = ?k \<longrightarrow> fm_range p \<noteq> r"
        using u_src srcv r(2) by (fastforce simp: range_is_valid_def)
      from fresh_range [OF inv fm i r(1) ins src chd]
      have "\<forall>j < length S. r \<noteq> fm_range (S ! j)" "\<forall>p \<in> set ?srcs. fm_range p \<noteq> r" by simp_all
      with inv lt r(1) ins ex show ?thesis by (intro base_inv_add)
    qed
    show ?thesis
    proof (cases "i < length S - 1 \<and> ?k = kmer (?nxt ! (i + 1))")
      case False
      obtain m' np' where ps: "put_source m np u ?k = (m', np')" by (cases "put_source m np u ?k") auto
      note psn = put_source_next [OF ps]
      from run True False ps have res: "m2 = m'" "np2 = np'" "u2 = u"
        by (auto simp: source_after_def Let_def)
      have nonext: "\<not> (Suc i < length S \<and> kmer (S ! Suc i) = ?k)"
        using False same [of "Suc i"] by auto
      have later: "\<And>j. i < j \<Longrightarrow> j < length S \<Longrightarrow> kmer (S ! j) = ?k \<Longrightarrow> False"
      proof -
        fix j assume j: "i < j" "j < length S" "kmer (S ! j) = ?k"
        have "kmer (S ! Suc i) = kmer (S ! i)"
          using srt fm _ _ j(2) by (rule kmer_runs) (use j in simp_all)
        with nonext j show False by simp
      qed
      have b: "base_inv (opts m) S ?cap (Suc i) (next_paths m2) np2"
      proof (cases "range_is_valid u")
        case False
        with psn res inv show ?thesis by simp
      next
        case True
        from add [OF True _ _ , of "kmer_probs m ! unat ?k"] u_end later psn res True
        show ?thesis by auto
      qed
      with nonext psn res show ?thesis by (auto split: if_splits)
    next
      case hn: True
      then have si: "Suc i < length S" and sk: "kmer (S ! Suc i) = ?k"
        using same [of "Suc i"] by auto
      let ?nr = "fm_range (S ! Suc i)"
      have nr: "fm_range (?nxt ! (i + 1)) = ?nr" using same [OF si] by simp
      note fn = fm_consistent_nth [OF fm si]
      have nend: "range_end ?nr \<noteq> - 1" using fm si by (rule fm_consistent_end)
      let ?r = "u\<lparr> range_end := range_start ?nr - 1 \<rparr>"
      let ?u2 = "if range_start u \<le> range_end ?nr then u\<lparr> range_start := range_end ?nr + 1 \<rparr> else u"
      obtain m' np' where ps: "put_source m np ?r ?k = (m', np')" by (cases "put_source m np ?r ?k") auto
      note psn = put_source_next [OF ps]
      from run True hn ps nr have res: "m2 = m'" "np2 = np'" "u2 = ?u2"
        by (auto simp: source_after_def Let_def)
      have pred: "range_start ?nr - 1 < range_start ?nr" using fn(3) by (rule word_pred_less)
      have u2_ge: "range_start u \<le> range_start ?u2"
        using nend by (auto simp: word_le_nat_alt unat_plus_one)
      have u2_nr: "range_end ?nr < range_start ?u2"
        using nend by (auto simp: word_less_succ_iff not_le)
      have u2_end: "range_end ?u2 = range_end ?kf" using u_end by simp
      have later: "\<And>j. i < j \<Longrightarrow> j < length S \<Longrightarrow> kmer (S ! j) = ?k \<Longrightarrow>
                      range_end ?r < range_start (fm_range (S ! j))"
      proof -
        fix j assume j: "i < j" "j < length S" "kmer (S ! j) = ?k"
        then have "range_start ?nr \<le> range_start (fm_range (S ! j))"
          using srt by (intro sorted_starts) simp_all
        with pred show "range_end ?r < range_start (fm_range (S ! j))" by simp
      qed
      have r_end: "range_end ?r \<le> range_end ?kf"
        using pred fn(1,2) sk by (auto simp: inside_def range_is_valid_def)
      have chd2: "\<And>j. j \<le> Suc i \<Longrightarrow> j < length S \<Longrightarrow> kmer (S ! j) = ?k \<Longrightarrow>
                    range_end (fm_range (S ! j)) < range_start ?u2"
      proof -
        fix j assume j: "j \<le> Suc i" "j < length S" "kmer (S ! j) = ?k"
        show "range_end (fm_range (S ! j)) < range_start ?u2"
        proof (cases "j = Suc i")
          case True
          with u2_nr show ?thesis by simp
        next
          case False
          with j have "j \<le> i" by simp
          from u_chd [OF this j(2,3)] u2_ge show ?thesis by (rule less_le_trans)
        qed
      qed
      show ?thesis
      proof (cases "range_is_valid ?r")
        case False
        with psn res have eq: "next_paths m2 = ?nxt" "np2 = np" by simp_all
        have "unch (opts m) (kmer_probs m) S ?cap (Suc i) ?nxt np ?k ?u2"
          unfolding unch_def
        proof (intro impI conjI allI ballI)
          show "range_end ?u2 = range_end ?kf" by (rule u2_end)
        next
          fix j assume "j \<le> Suc i" "j < length S \<and> kmer (S ! j) = ?k"
          then show "range_end (fm_range (S ! j)) < range_start ?u2" using chd2 by blast
        next
          fix p assume "p \<in> set ?srcs" "kmer p = ?k"
          then have "range_end (fm_range p) < range_start u" by (rule u_src)
          then show "range_end (fm_range p) < range_start ?u2" using u2_ge by (rule less_le_trans)
        qed
        with inv eq res psn show ?thesis by simp
      next
        case valid: True
        let ?p = "make_source (?nxt ! np) ?r ?k (kmer_probs m ! unat ?k)"
        from valid psn res have eq: "next_paths m2 = ?nxt[np := ?p]" "np2 = Suc np" by simp_all
        have b: "base_inv (opts m) S ?cap (Suc i) (?nxt[np := ?p]) (Suc np)"
          using valid _ r_end later by (rule add) simp
        have so: "sources_of (length S) (Suc np) (?nxt[np := ?p]) = ?srcs @ [?p]"
          using n lt by (intro sources_of_snoc) simp_all
        have fired: "range_start u \<le> range_end ?nr"
          using valid pred fn(1) by (auto simp: range_is_valid_def)
        have new_end: "range_end ?r < range_start ?u2"
          using fired pred fn(1) u2_nr by (auto simp: range_is_valid_def)
        have "unch (opts m) (kmer_probs m) S ?cap (Suc i) (?nxt[np := ?p]) (Suc np) ?k ?u2"
          unfolding unch_def so
        proof (intro impI conjI allI ballI)
          show "range_end ?u2 = range_end ?kf" by (rule u2_end)
        next
          fix j assume "j \<le> Suc i" "j < length S \<and> kmer (S ! j) = ?k"
          then show "range_end (fm_range (S ! j)) < range_start ?u2" using chd2 by blast
        next
          fix p assume p: "p \<in> set (?srcs @ [?p])" "kmer p = ?k"
          show "range_end (fm_range p) < range_start ?u2"
          proof (cases "p = ?p")
            case True
            with new_end show ?thesis by simp
          next
            case False
            with p have "p \<in> set ?srcs" by simp
            then have "range_end (fm_range p) < range_start u" using p(2) by (rule u_src)
            then show ?thesis using u2_ge by (rule less_le_trans)
          qed
        qed
        with b eq res psn show ?thesis by simp
      qed
    qed
  qed
qed

lemma update_seeds_frame:
  "update_seeds e st m p pe = Some (p', m') \<Longrightarrow>
     next_paths m' = next_paths m \<and> opts m' = opts m \<and> kmer_probs m' = kmer_probs m \<and>
     kmer p' = kmer p \<and> fm_range p' = fm_range p \<and> seed_prob p' = seed_prob p \<and>
     path_length p' = path_length p"
  by (auto simp: update_seeds_def split: if_splits option.splits)

lemma dedup_loop_inv:
  assumes srt: "sorted_wrt (\<lambda>a b. \<not> path_less b a) S" and fm: "fm_consistent (opts m) S"
    and n: "n = length S"
    and inv: "base_inv (opts m) S (length (next_paths m)) i (next_paths m) np"
    and pk: "if i = 0 then \<forall>j < length S. pk \<noteq> kmer (S ! j) else pk = kmer (S ! (i - 1))"
    and un: "i < length S \<and> pk = kmer (S ! i) \<longrightarrow>
               unch (opts m) (kmer_probs m) S (length (next_paths m)) i (next_paths m) np pk u"
    and run: "dedup_loop e st n [i ..< n] m np pk u = Some (m', np')"
  shows "base_inv (opts m) S (length (next_paths m)) n (next_paths m') np'"
  using fm inv pk un run
proof (induction "n - i" arbitrary: i m np pk u)
  case 0
  then have "[i ..< n] = []" by simp
  with 0 have "m' = m" "np' = np" by simp_all
  with 0 show ?case
    unfolding base_inv_def n by (metis (no_types, lifting))
next
  case (Suc d)
  then have i: "i < length S" and lt: "i < n" by (simp_all add: n)
  then have upt: "[i ..< n] = i # [Suc i ..< n]" by (simp add: upt_conv_Cons)
  have d: "d = n - Suc i" using Suc.hyps(2) by simp
  let ?k = "kmer (S ! i)" and ?cap = "length (next_paths m)"
  note fm = Suc.prems(1) and inv = Suc.prems(2) and pk = Suc.prems(3) and un = Suc.prems(4)
    and run = Suc.prems(5)
  from inv have same: "\<And>j. j < length S \<Longrightarrow>
      kmer (next_paths m ! j) = kmer (S ! j) \<and> fm_range (next_paths m ! j) = fm_range (S ! j)"
    and np: "length S \<le> np"
    by (simp_all add: base_inv_def)
  have ki: "kmer (next_paths m ! i) = ?k" using same [OF i] by simp
  obtain m1 np1 u1 where b: "source_before m np i ?k pk u = (m1, np1, u1)"
    by (cases "source_before m np i ?k pk u") auto
  from un i have un': "pk = ?k \<longrightarrow> unch (opts m) (kmer_probs m) S ?cap i (next_paths m) np pk u"
    by simp
  from source_before_inv [OF srt fm i inv pk un' b]
  have inv1: "base_inv (opts m) S ?cap (Suc i) (next_paths m1) np1"
    and un1: "unch (opts m) (kmer_probs m) S ?cap i (next_paths m1) np1 ?k u1"
    and fr1: "opts m1 = opts m" "kmer_probs m1 = kmer_probs m" "length (next_paths m1) = ?cap"
    by simp_all
  from inv1 have same1: "\<And>j. j < length S \<Longrightarrow>
      kmer (next_paths m1 ! j) = kmer (S ! j) \<and> fm_range (next_paths m1 ! j) = fm_range (S ! j)"
    by (simp add: base_inv_def)
  have pk': "if Suc i = 0 then \<forall>j < length S. ?k \<noteq> kmer (S ! j) else ?k = kmer (S ! (Suc i - 1))"
    by simp
  show ?case
  proof (cases "i < n - 1 \<and> range_eq (fm_range (next_paths m1 ! i)) (fm_range (next_paths m1 ! (i + 1)))")
    case True
    then have si: "Suc i < length S" unfolding n by linarith
    from True same1 [OF i] same1 [OF si] have req: "fm_range (S ! i) = fm_range (S ! Suc i)"
      by (simp add: range_eq_iff)
    let ?m2 = "put_next m1 i (invalidate (next_paths m1 ! i))"
    from run b True ki
    have run2: "dedup_loop e st n [Suc i ..< n] ?m2 np1 ?k u1 = Some (m', np')"
      by (simp add: upt Let_def)
    have fr2: "opts ?m2 = opts m" "kmer_probs ?m2 = kmer_probs m" "length (next_paths ?m2) = ?cap"
      using fr1 by (simp_all add: put_next_def)
    have inv2: "base_inv (opts ?m2) S (length (next_paths ?m2)) (Suc i) (next_paths ?m2) np1"
      using base_inv_child [OF inv1 i, of "invalidate (next_paths m1 ! i)"]
      by (simp add: fr2) (simp add: put_next_def invalidate_def)
    have so: "sources_of (length S) np1 (next_paths ?m2) = sources_of (length S) np1 (next_paths m1)"
      using inv1 i unfolding put_next_def by (simp add: sources_of_update_low base_inv_def)
    have un2: "Suc i < length S \<and> ?k = kmer (S ! Suc i) \<longrightarrow>
        unch (opts ?m2) (kmer_probs ?m2) S (length (next_paths ?m2)) (Suc i) (next_paths ?m2) np1 ?k u1"
    proof
      assume "Suc i < length S \<and> ?k = kmer (S ! Suc i)"
      show "unch (opts ?m2) (kmer_probs ?m2) S (length (next_paths ?m2)) (Suc i) (next_paths ?m2) np1 ?k u1"
        unfolding unch_def fr2 so
      proof (intro impI conjI allI ballI)
        assume act: "np1 \<noteq> ?cap \<and> get_source_prob (opts m) \<le> kmer_probs m ! unat ?k"
        with un1 show "range_end u1 = range_end (kmer_fmranges (opts m) ?k)"
          unfolding unch_def by blast
        {
          fix j assume j: "j \<le> Suc i" "j < length S \<and> kmer (S ! j) = ?k"
          from un1 act have c: "\<And>l. l \<le> i \<Longrightarrow> l < length S \<Longrightarrow> kmer (S ! l) = ?k \<Longrightarrow>
              range_end (fm_range (S ! l)) < range_start u1"
            unfolding unch_def by blast
          show "range_end (fm_range (S ! j)) < range_start u1"
          proof (cases "j = Suc i")
            case True
            with c [of i] i req show ?thesis by simp
          next
            case False
            with j c [of j] show ?thesis by simp
          qed
        }
        {
          fix p assume "p \<in> set (sources_of (length S) np1 (next_paths m1))" "kmer p = ?k"
          with un1 act show "range_end (fm_range p) < range_start u1"
            unfolding unch_def by blast
        }
      qed
    qed
    have fm2: "fm_consistent (opts ?m2) S" using fm by (simp add: fr2)
    from Suc.hyps(1) [OF d fm2 inv2 pk' un2 run2]
    show ?thesis by (simp add: fr2)
  next
    case False
    obtain m2 np2 u2 where a: "source_after m1 np1 n i ?k u1 = (m2, np2, u2)"
      by (cases "source_after m1 np1 n i ?k u1") auto
    have fm1: "fm_consistent (opts m1) S" using fm by (simp add: fr1)
    from source_after_inv [OF srt fm1 i, of np1 u1 m2 np2 u2] inv1 un1 a fr1
    have inv2: "base_inv (opts m) S ?cap (Suc i) (next_paths m2) np2"
      and un2: "Suc i < length S \<and> kmer (S ! Suc i) = ?k \<longrightarrow>
          unch (opts m) (kmer_probs m) S ?cap (Suc i) (next_paths m2) np2 ?k u2"
      and fr2: "opts m2 = opts m" "kmer_probs m2 = kmer_probs m" "length (next_paths m2) = ?cap"
      by (simp_all add: n)
    from run b False a ki
    obtain p' m3 where us: "update_seeds e st m2 (next_paths m2 ! i) False = Some (p', m3)"
      and run3: "dedup_loop e st n [Suc i ..< n] (put_next m3 i p') np2 ?k u2 = Some (m', np')"
      by (auto simp: upt Let_def split: option.splits)
    note uf = update_seeds_frame [OF us]
    let ?m4 = "put_next m3 i p'"
    have fr4: "opts ?m4 = opts m" "kmer_probs ?m4 = kmer_probs m" "length (next_paths ?m4) = ?cap"
      "next_paths ?m4 = (next_paths m2)[i := p']"
      using fr2 uf by (simp_all add: put_next_def)
    have inv4: "base_inv (opts ?m4) S (length (next_paths ?m4)) (Suc i) (next_paths ?m4) np2"
      using base_inv_child [OF inv2 i, of p'] uf fr2 by (simp add: fr4)
    have so: "sources_of (length S) np2 (next_paths ?m4) = sources_of (length S) np2 (next_paths m2)"
      using inv2 i unfolding fr4 by (simp add: sources_of_update_low base_inv_def)
    have un4: "Suc i < length S \<and> ?k = kmer (S ! Suc i) \<longrightarrow>
        unch (opts ?m4) (kmer_probs ?m4) S (length (next_paths ?m4)) (Suc i) (next_paths ?m4) np2 ?k u2"
      using un2 unfolding unch_def fr4(1-3) so by (simp add: fr4)
    have fm4: "fm_consistent (opts ?m4) S" using fm by (simp add: fr4)
    from Suc.hyps(1) [OF d fm4 inv4 pk' un4 run3]
    show ?thesis using fr2 by (simp add: fr4)
  qed
qed

subsection \<open>The loop returns\<close>

lemma update_seeds_returns:
  "range_end (fm_range p) \<noteq> - 1 \<Longrightarrow> \<exists>r. update_seeds e st m p pe = Some r"
  by (simp add: update_seeds_def seed_loop_foldl del: upt_Suc)

lemma dedup_loop_returns:
  assumes "\<forall>j. i \<le> j \<and> j < n \<longrightarrow> range_end (fm_range (next_paths m ! j)) \<noteq> - 1"
    and "n \<le> np" "np \<le> length (next_paths m)"
  shows "\<exists>r. dedup_loop e st n [i ..< n] m np pk u = Some r"
  using assms
proof (induction "n - i" arbitrary: i m np pk u)
  case 0
  then have "[i ..< n] = []" by simp
  then show ?case by (simp only: dedup_loop.simps) simp
next
  case (Suc d)
  then have lt: "i < n" by simp
  then have upt: "[i ..< n] = i # [Suc i ..< n]" by (simp add: upt_conv_Cons)
  have d: "d = n - Suc i" using Suc.hyps(2) by simp
  let ?k = "kmer (next_paths m ! i)"
  obtain m1 np1 u1 where b: "source_before m np i ?k pk u = (m1, np1, u1)"
    by (cases "source_before m np i ?k pk u") auto
  have k1: "keeps n m np m1 np1" using b Suc.prems(2,3) by (rule keeps_source_before)
  then have e1: "\<And>j. j < n \<Longrightarrow> next_paths m1 ! j = next_paths m ! j"
    and n1: "n \<le> np1" "np1 \<le> length (next_paths m1)"
    using Suc.prems(2) by (auto simp: keeps_def)
  show ?case
  proof (cases "i < n - 1 \<and> range_eq (fm_range (next_paths m1 ! i)) (fm_range (next_paths m1 ! (i + 1)))")
    case True
    let ?m2 = "put_next m1 i (invalidate (next_paths m1 ! i))"
    have "\<forall>j. Suc i \<le> j \<and> j < n \<longrightarrow> range_end (fm_range (next_paths ?m2 ! j)) \<noteq> - 1"
      using Suc.prems(1) e1 by (auto simp: put_next_def)
    moreover have "np1 \<le> length (next_paths ?m2)" using n1 by (simp add: put_next_def)
    ultimately have "\<exists>r. dedup_loop e st n [Suc i ..< n] ?m2 np1 ?k u1 = Some r"
      using n1(1) by (intro Suc.hyps(1) [OF d])
    with b True show ?thesis by (simp add: upt Let_def)
  next
    case False
    obtain m2 np2 u2 where a: "source_after m1 np1 n i ?k u1 = (m2, np2, u2)"
      by (cases "source_after m1 np1 n i ?k u1") auto
    have k2: "keeps n m1 np1 m2 np2" using a n1 by (rule keeps_source_after)
    then have e2: "\<And>j. j < n \<Longrightarrow> next_paths m2 ! j = next_paths m ! j"
      and n2: "n \<le> np2" "np2 \<le> length (next_paths m2)"
      using e1 n1 by (auto simp: keeps_def)
    have "range_end (fm_range (next_paths m2 ! i)) \<noteq> - 1" using Suc.prems(1) lt e2 by simp
    then obtain p' m3 where us: "update_seeds e st m2 (next_paths m2 ! i) False = Some (p', m3)"
      using update_seeds_returns [of "next_paths m2 ! i" e st m2 False] by auto
    let ?m4 = "put_next m3 i p'"
    have np3: "next_paths m3 = next_paths m2" using update_seeds_path [OF us] by simp
    have "\<forall>j. Suc i \<le> j \<and> j < n \<longrightarrow> range_end (fm_range (next_paths ?m4 ! j)) \<noteq> - 1"
      using Suc.prems(1) e2 by (auto simp: put_next_def np3)
    moreover have "np2 \<le> length (next_paths ?m4)" using n2 by (simp add: put_next_def np3)
    ultimately have "\<exists>r. dedup_loop e st n [Suc i ..< n] ?m4 np2 ?k u2 = Some r"
      using n2(1) by (intro Suc.hyps(1) [OF d])
    with b False a us show ?thesis by (auto simp: upt Let_def)
  qed
qed

subsection \<open>The surviving duplicate\<close>

lemma last_of_run:
  assumes "i < n" "n \<le> length S"
  shows "\<exists>j. i \<le> j \<and> j < n \<and> fm_range (S ! j) = fm_range (S ! i) \<and> \<not> dup_at n S j"
  using assms
proof (induction "n - i" arbitrary: i)
  case 0
  then show ?case by simp
next
  case (Suc d)
  show ?case
  proof (cases "dup_at n S i")
    case False
    with Suc.prems show ?thesis by auto
  next
    case True
    then have si: "Suc i < n" and eq: "fm_range (S ! i) = fm_range (S ! Suc i)"
      by (auto simp: dup_at_def range_eq_iff)
    have "d = n - Suc i" using Suc.hyps(2) by simp
    from Suc.hyps(1) [OF this si Suc.prems(2)] eq show ?thesis
      by (metis Suc_leD)
  qed
qed

lemma processed_fields:
  assumes "processed n S j p"
  shows "fm_range p = fm_range (S ! j)" "kmer p = kmer (S ! j)" "seed_prob p = seed_prob (S ! j)"
    and "is_valid p \<longleftrightarrow> is_valid (S ! j) \<and> \<not> dup_at n S j"
proof -
  have a: "dup_at n S j \<Longrightarrow> p = invalidate (S ! j)"
    and b: "\<not> dup_at n S j \<Longrightarrow> p\<lparr> sa_checked := sa_checked (S ! j) \<rparr> = S ! j"
    using assms by (simp_all add: processed_def)
  show "fm_range p = fm_range (S ! j)"
  proof (cases "dup_at n S j")
    case True with a show ?thesis by (simp add: invalidate_def)
  next
    case False with b have "fm_range (p\<lparr> sa_checked := sa_checked (S ! j) \<rparr>) = fm_range (S ! j)" by simp
    then show ?thesis by simp
  qed
  show "kmer p = kmer (S ! j)"
  proof (cases "dup_at n S j")
    case True with a show ?thesis by (simp add: invalidate_def)
  next
    case False with b have "kmer (p\<lparr> sa_checked := sa_checked (S ! j) \<rparr>) = kmer (S ! j)" by simp
    then show ?thesis by simp
  qed
  show "seed_prob p = seed_prob (S ! j)"
  proof (cases "dup_at n S j")
    case True with a show ?thesis by (simp add: invalidate_def)
  next
    case False with b have "seed_prob (p\<lparr> sa_checked := sa_checked (S ! j) \<rparr>) = seed_prob (S ! j)" by simp
    then show ?thesis by simp
  qed
  show "is_valid p \<longleftrightarrow> is_valid (S ! j) \<and> \<not> dup_at n S j"
  proof (cases "dup_at n S j")
    case True with a show ?thesis by (simp add: invalidate_def is_valid_def)
  next
    case False with b have "path_length (p\<lparr> sa_checked := sa_checked (S ! j) \<rparr>) = path_length (S ! j)" by simp
    with False show ?thesis by (simp add: is_valid_def)
  qed
qed

lemma fm_consistent_set:
  "set S = set C \<Longrightarrow> fm_consistent opt S = fm_consistent opt C"
  by (simp add: fm_consistent_def list_all_iff)

text \<open>
  C4.  The children that the extension loop writes are valid paths, and with a
  suffix-array index their ranges are consistent with the k-mer ranges: each
  child's range is valid, lies inside the range of its k-mer and does not start
  at row 0; different k-mers have disjoint ranges, none ending at the largest
  \<^verbatim>\<open>u64\<close>; the k-mers are below \<^verbatim>\<open>kmer_count\<close>.  Let \<^verbatim>\<open>pdqsort\<close> return them
  sorted by \<^verbatim>\<open>operator<\<close>, that is by range and, within a range, by
  \<^verbatim>\<open>seed_prob\<close>.  Then the sort-and-dedup phase returns, no two valid entries of
  \<open>next\<close> (the children and the sources added between them) share an
  \<^verbatim>\<open>fm_range\<close>, and for every child a valid child with the same range and at
  least its \<^verbatim>\<open>seed_prob\<close> survives: of the children of one range, the one of
  highest probability, which sorts last.
\<close>

theorem sort_dedup_distinct:
  assumes np: "0 < np" "np \<le> length (next_paths m)"
    and valid: "\<forall>c \<in> set (take np (next_paths m)). is_valid c"
    and srt: "sorted_wrt (\<lambda>a b. \<not> path_less b a) (pdqsort e (take np (next_paths m)))"
    and perm: "mset (pdqsort e (take np (next_paths m))) = mset (take np (next_paths m))"
    and fm: "fm_consistent (opts m) (take np (next_paths m))"
    and km: "\<forall>c \<in> set (take np (next_paths m)). unat (kmer c) < kmer_count e" "kmer_count e < 65536"
  shows "\<exists>m' np'. sort_dedup e st m np = Some (m', np') \<and> np \<le> np' \<and> np' \<le> length (next_paths m') \<and>
           (\<forall>i < np'. \<forall>j < np'. i \<noteq> j \<and> is_valid (next_paths m' ! i) \<and> is_valid (next_paths m' ! j) \<longrightarrow>
              \<not> range_eq (fm_range (next_paths m' ! i)) (fm_range (next_paths m' ! j))) \<and>
           (\<forall>c \<in> set (take np (next_paths m)).
              \<exists>j < np. is_valid (next_paths m' ! j) \<and>
                range_eq (fm_range (next_paths m' ! j)) (fm_range c) \<and>
                seed_prob c \<le> seed_prob (next_paths m' ! j))"
proof -
  let ?C = "take np (next_paths m)"
  let ?S = "pdqsort e ?C"
  let ?m1 = "m\<lparr> next_paths := ?S @ drop np (next_paths m) \<rparr>"
  let ?cap = "length (next_paths m)"
  have setS: "set ?S = set ?C" using perm by (rule mset_eq_setD)
  have lenS: "length ?S = np" using perm np(2) by (metis length_take min.absorb2 size_mset)
  have cap1: "length (next_paths ?m1) = ?cap" using lenS np(2) by simp
  have ent1: "\<And>j. j < np \<Longrightarrow> next_paths ?m1 ! j = ?S ! j" using lenS by (simp add: nth_append)
  have fmS: "fm_consistent (opts ?m1) ?S" using fm fm_consistent_set [OF setS] by simp
  have sent: "\<forall>j < length ?S. (of_nat (kmer_count e) :: u16) \<noteq> kmer (?S ! j)"
  proof (intro allI impI)
    fix j assume "j < length ?S"
    then have "?S ! j \<in> set ?C" using setS nth_mem by blast
    with km(1) have "unat (kmer (?S ! j)) < kmer_count e" by blast
    moreover have "unat (of_nat (kmer_count e) :: u16) = kmer_count e"
      using km(2) by (simp add: unat_of_nat take_bit_nat_eq_self)
    ultimately show "(of_nat (kmer_count e) :: u16) \<noteq> kmer (?S ! j)" by auto
  qed
  have ends: "\<forall>j. 0 \<le> j \<and> j < np \<longrightarrow> range_end (fm_range (next_paths ?m1 ! j)) \<noteq> - 1"
    using fm_consistent_end [OF fmS] ent1 lenS by simp
  obtain m' np' where run: "dedup_loop e st np [0 ..< np] ?m1 np (of_nat (kmer_count e)) (range_default e) = Some (m', np')"
    using dedup_loop_returns [OF ends, of np e st "of_nat (kmer_count e)" "range_default e"] cap1 np(2)
    by auto
  have sd: "sort_dedup e st m np = Some (m', np')"
    using run np(1) by (simp add: sort_dedup_def Let_def)
  \<comment> \<open>the children\<close>
  let ?N = "?S @ drop np (next_paths m)"
  have entN: "\<And>j. j < np \<Longrightarrow> ?N ! j = ?S ! j" using lenS by (simp add: nth_append)
  from dedup_loop_children [OF run] cap1 np(2)
  have kp: "keeps 0 ?m1 np m' np'"
    and proc: "\<And>j. j < np \<Longrightarrow> processed np ?N j (next_paths m' ! j)"
    by simp_all
  have dupS: "\<And>j. dup_at np ?N j = dup_at np ?S j"
    using entN by (auto simp: dup_at_def)
  have procS: "processed np ?S j (next_paths m' ! j)" if "j < np" for j
  proof -
    have "processed np ?N j (next_paths m' ! j)" using that by (rule proc)
    then show ?thesis unfolding processed_def dupS entN [OF that] .
  qed
  from kp have bounds: "np \<le> np'" "np' \<le> length (next_paths m')" "length (next_paths m') = ?cap"
    using cap1 by (simp_all add: keeps_def)
  \<comment> \<open>the sources\<close>
  have inv0: "base_inv (opts ?m1) ?S (length (next_paths ?m1)) 0 (next_paths ?m1) np"
    using lenS np(2) by (simp add: base_inv_def sources_of_def nth_append)
  have pk0: "if (0::nat) = 0 then \<forall>j < length ?S. (of_nat (kmer_count e) :: u16) \<noteq> kmer (?S ! j)
             else (of_nat (kmer_count e) :: u16) = kmer (?S ! (0 - 1))"
    using sent by simp
  have un0: "0 < length ?S \<and> (of_nat (kmer_count e) :: u16) = kmer (?S ! 0) \<longrightarrow>
      unch (opts ?m1) (kmer_probs ?m1) ?S (length (next_paths ?m1)) 0 (next_paths ?m1) np
        (of_nat (kmer_count e)) (range_default e)"
    using sent by blast
  have "base_inv (opts ?m1) ?S (length (next_paths ?m1)) np (next_paths m') np'"
    using srt fmS lenS [symmetric] inv0 pk0 un0 run by (rule dedup_loop_inv)
  then have dist: "distinct (map fm_range (sources_of np np' (next_paths m')))"
    and src: "\<And>p j. p \<in> set (sources_of np np' (next_paths m')) \<Longrightarrow> j < np \<Longrightarrow>
                fm_range p \<noteq> fm_range (?S ! j)"
    by (simp_all add: base_inv_def lenS)
  have src_nth: "\<And>q. np \<le> q \<Longrightarrow> q < np' \<Longrightarrow>
      sources_of np np' (next_paths m') ! (q - np) = next_paths m' ! q"
    using bounds by (simp add: sources_of_def)
  have src_len: "length (sources_of np np' (next_paths m')) = np' - np"
    using bounds by (simp add: sources_of_def)
  \<comment> \<open>two different valid entries have different ranges\<close>
  have low: "fm_range (next_paths m' ! i) \<noteq> fm_range (next_paths m' ! j)"
    if "i < j" "j < np" "is_valid (next_paths m' ! i)" for i j
  proof
    assume eq: "fm_range (next_paths m' ! i) = fm_range (next_paths m' ! j)"
    from that have i: "i < np" by simp
    from eq processed_fields(1) [OF procS [OF i]] processed_fields(1) [OF procS [OF that(2)]]
    have "fm_range (?S ! i) = fm_range (?S ! j)" by simp
    then have "fm_range (?S ! Suc i) = fm_range (?S ! i)"
      using srt that(1,2) lenS by (intro sorted_eq_ranges [of ?S i "Suc i" j]) simp_all
    with that have "dup_at np ?S i" by (simp add: dup_at_def range_eq_iff)
    with processed_fields(4) [OF procS [OF i]] that(3) show False by simp
  qed
  have mixed: "fm_range (next_paths m' ! i) \<noteq> fm_range (next_paths m' ! j)"
    if "i < np" "np \<le> j" "j < np'" for i j
  proof -
    have "sources_of np np' (next_paths m') ! (j - np) \<in> set (sources_of np np' (next_paths m'))"
      using that src_len by (intro nth_mem) simp
    then have "next_paths m' ! j \<in> set (sources_of np np' (next_paths m'))"
      using src_nth that by simp
    from src [OF this that(1)] processed_fields(1) [OF procS [OF that(1)]] show ?thesis by simp
  qed
  have high: "fm_range (next_paths m' ! i) \<noteq> fm_range (next_paths m' ! j)"
    if "np \<le> i" "i < j" "j < np'" for i j
  proof -
    let ?rs = "map fm_range (sources_of np np' (next_paths m'))"
    have a: "i - np < length ?rs" "j - np < length ?rs" "i - np \<noteq> j - np"
      using that src_len by simp_all
    have "?rs ! (i - np) \<noteq> ?rs ! (j - np)"
      using dist a by (simp only: nth_eq_iff_index_eq) simp
    moreover have "?rs ! (i - np) = fm_range (next_paths m' ! i)"
      using that src_len src_nth [of i] by simp
    moreover have "?rs ! (j - np) = fm_range (next_paths m' ! j)"
      using that src_len src_nth [of j] by simp
    ultimately show ?thesis by simp
  qed
  have ordered: "fm_range (next_paths m' ! i) \<noteq> fm_range (next_paths m' ! j)"
    if "i < j" "j < np'" "is_valid (next_paths m' ! i)" for i j
  proof (cases "j < np")
    case True
    with that show ?thesis by (intro low)
  next
    case False
    show ?thesis
    proof (cases "i < np")
      case True
      with False that show ?thesis by (intro mixed) simp_all
    next
      case nl: False
      with that show ?thesis by (intro high) simp_all
    qed
  qed
  have distinct_valid: "\<forall>i < np'. \<forall>j < np'.
      i \<noteq> j \<and> is_valid (next_paths m' ! i) \<and> is_valid (next_paths m' ! j) \<longrightarrow>
      \<not> range_eq (fm_range (next_paths m' ! i)) (fm_range (next_paths m' ! j))"
  proof (intro allI impI)
    fix i j assume i: "i < np'" and j: "j < np'"
      and h: "i \<noteq> j \<and> is_valid (next_paths m' ! i) \<and> is_valid (next_paths m' ! j)"
    show "\<not> range_eq (fm_range (next_paths m' ! i)) (fm_range (next_paths m' ! j))"
    proof (cases "i < j")
      case True
      with ordered [of i j] j h show ?thesis by (simp add: range_eq_iff)
    next
      case False
      with h have "j < i" by simp
      with ordered [of j i] i h show ?thesis by (auto simp: range_eq_iff)
    qed
  qed
  \<comment> \<open>the survivor of each group of equal ranges\<close>
  have survivor: "\<forall>c \<in> set ?C. \<exists>j < np. is_valid (next_paths m' ! j) \<and>
      range_eq (fm_range (next_paths m' ! j)) (fm_range c) \<and> seed_prob c \<le> seed_prob (next_paths m' ! j)"
  proof
    fix c assume "c \<in> set ?C"
    then have "c \<in> set ?S" using setS by simp
    then obtain i where i: "i < np" "c = ?S ! i" using lenS by (metis in_set_conv_nth)
    from last_of_run [of i np ?S] i lenS
    obtain j where j: "i \<le> j" "j < np" "fm_range (?S ! j) = fm_range (?S ! i)" "\<not> dup_at np ?S j"
      by auto
    have "?S ! j \<in> set ?S" using j(2) lenS by simp
    then have "?S ! j \<in> set ?C" using setS by simp
    with valid have vj: "is_valid (?S ! j)" by blast
    note pf = processed_fields [OF procS [OF j(2)]]
    have pr: "seed_prob (?S ! i) \<le> seed_prob (?S ! j)"
      using srt j(1) _ j(3) [symmetric] by (rule sorted_probs) (simp add: lenS j(2))
    have a: "is_valid (next_paths m' ! j)" using pf(4) vj j(4) by simp
    have b: "range_eq (fm_range (next_paths m' ! j)) (fm_range c)"
      using pf(1) j(3) i(2) by (simp add: range_eq_iff)
    have c: "seed_prob c \<le> seed_prob (next_paths m' ! j)" using pf(3) pr i(2) by simp
    from j(2) a b c show "\<exists>j < np. is_valid (next_paths m' ! j) \<and>
      range_eq (fm_range (next_paths m' ! j)) (fm_range c) \<and> seed_prob c \<le> seed_prob (next_paths m' ! j)"
      by (intro exI [of _ j] conjI)
  qed
  show ?thesis
    by (intro exI [of _ m'] exI [of _ np'] conjI sd bounds(1) bounds(2) distinct_valid survivor)
qed

theorem sort_dedup_distinct_witness:
  "list_all is_valid (take 2 (next_paths ex_twins)) \<and>
   sorted_wrt (\<lambda>a b. \<not> path_less b a) (pdqsort ex_env (take 2 (next_paths ex_twins))) \<and>
   fm_consistent (opts ex_twins) (take 2 (next_paths ex_twins)) \<and>
   (\<exists>m' np'. sort_dedup ex_env ex_st ex_twins 2 = Some (m', np') \<and> 2 \<le> np' \<and>
      np' \<le> length (next_paths m') \<and>
      (\<forall>i < np'. \<forall>j < np'. i \<noteq> j \<and> is_valid (next_paths m' ! i) \<and> is_valid (next_paths m' ! j) \<longrightarrow>
         \<not> range_eq (fm_range (next_paths m' ! i)) (fm_range (next_paths m' ! j))) \<and>
      (\<forall>c \<in> set (take 2 (next_paths ex_twins)).
         \<exists>j < 2. is_valid (next_paths m' ! j) \<and>
           range_eq (fm_range (next_paths m' ! j)) (fm_range c) \<and>
           seed_prob c \<le> seed_prob (next_paths m' ! j)))"
proof -
  have h1: "0 < (2 :: nat)" "2 \<le> length (next_paths ex_twins)" by (simp_all add: ex_twins_def)
  have v: "list_all is_valid (take 2 (next_paths ex_twins))"
    by (simp add: ex_twins_def ex_run_defs step_defs)
  then have h2: "\<forall>c \<in> set (take 2 (next_paths ex_twins)). is_valid c" by (simp add: list_all_iff)
  have sorted: "pdqsort ex_env (take 2 (next_paths ex_twins)) =
      [make_child ex_st empty_path ex_src0 \<lparr> range_start = 6, range_end = 7 \<rparr> 1 (- 1) MATCH,
       make_child ex_st empty_path ex_src0 \<lparr> range_start = 6, range_end = 7 \<rparr> 1 0 MATCH]"
    by (simp add: ex_twins_def ex_run_defs step_defs)
  have h3: "sorted_wrt (\<lambda>a b. \<not> path_less b a) (pdqsort ex_env (take 2 (next_paths ex_twins)))"
    unfolding sorted by (simp add: ex_run_defs step_defs)
  have h4: "mset (pdqsort ex_env (take 2 (next_paths ex_twins))) = mset (take 2 (next_paths ex_twins))"
    unfolding sorted by (simp add: ex_twins_def)
  have h5: "fm_consistent (opts ex_twins) (take 2 (next_paths ex_twins))"
    by (simp add: ex_twins_def ex_run_defs step_defs fm_consistent_def inside_def)
  have h6: "\<forall>c \<in> set (take 2 (next_paths ex_twins)). unat (kmer c) < kmer_count ex_env"
    by (simp add: ex_twins_def ex_run_defs step_defs)
  have h7: "kmer_count ex_env < 65536" by (simp add: ex_env_def)
  from sort_dedup_distinct [OF h1 h2 h3 h4 h5 h6 h7, of ex_st] v h3 h5 show ?thesis by blast
qed

text \<open>
  The consistency of the index with the k-mer ranges is needed.  With an index
  whose step by base 0 leaves the range of the k-mer it leads to, the children of
  the source of k-mer 0 are its STAY child \<open>[1, 4]\<close>, a MATCH child
  \<open>[5, 6]\<close> of k-mer 1 and a MATCH child \<open>[7, 8]\<close> of k-mer 0.  After the
  child \<open>[5, 6]\<close> the loop adds a source over the rest \<open>[7, 8]\<close> of the range
  of k-mer 1, and two valid entries of \<open>next\<close> share a range.
\<close>

lemma sort_dedup_inconsistent_index:
  "(case extend_prev ex_env2 ex_st [0 ..< prev_size ex_clash]
           (ex_clash\<lparr> kmer_probs := [- 5, - 5] \<rparr>) 0 of
      Some (m1, np1) \<Rightarrow>
        (case sort_dedup ex_env2 ex_st m1 np1 of
           Some (m2, np2) \<Rightarrow>
             np1 = 3 \<and> np2 = 4 \<and>
             is_valid (next_paths m2 ! 2) \<and> is_valid (next_paths m2 ! 3) \<and>
             range_eq (fm_range (next_paths m2 ! 2)) (fm_range (next_paths m2 ! 3))
         | None \<Rightarrow> False)
    | None \<Rightarrow> False) \<and>
   (case add_event ex_env2 ex_st ex_clash 5 of
      Some (t, m) \<Rightarrow>
        prev_size m = 4 \<and> is_valid (prev_paths m ! 2) \<and> is_valid (prev_paths m ! 3) \<and>
        fm_range (prev_paths m ! 2) = \<lparr> range_start = 7, range_end = 8 \<rparr> \<and>
        fm_range (prev_paths m ! 3) = \<lparr> range_start = 7, range_end = 8 \<rparr>
    | None \<Rightarrow> False)"
  by (simp add: ex_clash_def ex_env2_def ex_opts2_def ex_run_defs step_defs upt2)

end
